theory Spec2Isabelle
  imports Complex_Main "HOL-Library.AList" "HOL-Library.Multiset"
begin

section \<open>The search service of the blog backend\<close>

text \<open>
  This theory embeds the class \<open>SearchService\<close> (package \<open>com.devnote.blog.service\<close>):
  its in-memory index, the scoring of one indexed post against a query, the ranked and
  paginated search, and the two operations that maintain the index.

  Conventions of the embedding.
  \<^item> A Java \<open>String\<close> is a \<open>string\<close>. The text is ASCII: \<open>toLowerCase\<close> maps the
    letters A to Z to a to z and keeps every other character, which is what Java does on
    ASCII text in a locale with the usual case mapping.
  \<^item> References are not null, except the columns the entity declares nullable, which
    are options.
  \<^item> A thrown exception is a value \<open>Inl e\<close>; a normal return is \<open>Inr v\<close>.
  \<^item> Java \<open>int\<close> arithmetic is written on \<open>int\<close> with the wrap-around to 32 bits
    applied where the source computes in \<open>int\<close>.
  \<^item> The fields of a class carry a short prefix (\<open>idx_\<close>, \<open>sr_\<close>, \<open>post_\<close>, \<open>pr_\<close>),
    since the classes share the names \<open>id\<close>, \<open>title\<close>, \<open>content\<close> and \<open>excerpt\<close>.
  \<^item> The annotation \<open>@Cacheable\<close> of line 48 is the cache that the framework keeps in
    front of \<open>searchPosts\<close>: \<open>searchPostsBody\<close> is the body of the method, and
    \<open>searchPosts\<close> is the call as a caller makes it, through the cache.
\<close>

subsection \<open>Strings\<close>

text \<open>\<open>String.toLowerCase\<close> on ASCII text.\<close>

definition toLowerChar :: "char \<Rightarrow> char" where
  "toLowerChar c =
     (if 65 \<le> (of_char c :: nat) \<and> (of_char c :: nat) \<le> 90
      then char_of ((of_char c :: nat) + 32) else c)"

definition toLowerCase :: "string \<Rightarrow> string" where
  "toLowerCase s = map toLowerChar s"

text \<open>\<open>String.trim\<close> removes, at both ends, the characters up to U+0020.\<close>

definition isTrimmed :: "char \<Rightarrow> bool" where
  "isTrimmed c = ((of_char c :: nat) \<le> 32)"

definition trim :: "string \<Rightarrow> string" where
  "trim s = rev (dropWhile isTrimmed (rev (dropWhile isTrimmed s)))"

text \<open>
  The class \<open>\s\<close> of \<open>java.util.regex\<close>: space, tab, line feed, vertical tab, form
  feed and carriage return.
\<close>

definition isWhitespace :: "char \<Rightarrow> bool" where
  "isWhitespace c = ((of_char c :: nat) \<in> {32, 9, 10, 11, 12, 13})"

text \<open>\<open>s.replaceAll("\\s+", " ")\<close>: every maximal run of \<open>\s\<close> becomes one space.\<close>

function collapseWhitespace :: "string \<Rightarrow> string" where
  "collapseWhitespace [] = []"
| "collapseWhitespace (c # cs) =
     (if isWhitespace c then CHR '' '' # collapseWhitespace (dropWhile isWhitespace cs)
      else c # collapseWhitespace cs)"
  by pat_completeness auto
termination
  by (relation "measure length") (auto simp: less_Suc_eq_le length_dropWhile_le)

text \<open>\<open>s.startsWith(q)\<close> and \<open>s.contains(q)\<close>.\<close>

fun startsWith :: "string \<Rightarrow> string \<Rightarrow> bool" where
  "startsWith s [] = True"
| "startsWith [] (q # qs) = False"
| "startsWith (c # cs) (q # qs) = (c = q \<and> startsWith cs qs)"

fun contains :: "string \<Rightarrow> string \<Rightarrow> bool" where
  "contains [] q = startsWith [] q"
| "contains (c # cs) q = (startsWith (c # cs) q \<or> contains cs q)"

text \<open>Lines 199 to 203.\<close>

definition normalizeQuery :: "string \<Rightarrow> string" where
  "normalizeQuery query = toLowerCase (collapseWhitespace (trim query))"

subsection \<open>Exceptions\<close>

text \<open>
  The exceptions that can leave \<open>searchPosts\<close>. Java raises \<open>IllegalArgumentException\<close>
  both for the blank query (line 53) and inside \<open>List.subList\<close>; the reason tells them
  apart, as the message does in Java.
\<close>

datatype reason = EmptyQuery | FromIndexAboveToIndex

datatype exn =
    IllegalArgumentException reason
  | IndexOutOfBoundsException
  | PatternSyntaxException
  | RuntimeException int

definition bindE :: "'e + 'a \<Rightarrow> ('a \<Rightarrow> 'e + 'b) \<Rightarrow> 'e + 'b" where
  "bindE m f = (case m of Inl e \<Rightarrow> Inl e | Inr v \<Rightarrow> f v)"

text \<open>Mapping a function that may throw over a list, left to right; the first exception wins.\<close>

fun mapE :: "('a \<Rightarrow> 'e + 'b) \<Rightarrow> 'a list \<Rightarrow> 'e + 'b list" where
  "mapE f [] = Inr []"
| "mapE f (x # xs) = bindE (f x) (\<lambda>y. bindE (mapE f xs) (\<lambda>ys. Inr (y # ys)))"

subsection \<open>Highlighting (lines 185 to 191)\<close>

text \<open>
  \<open>highlightText\<close> returns \<open>text.replaceAll("(?i)(" + query + ")", "<mark>$1</mark>")\<close>:
  the query is spliced into a regular expression as it is. When no character of the
  query is special in \<open>java.util.regex\<close>, the expression matches exactly the spans that
  equal the query up to ASCII case; \<open>replaceAll\<close> then scans the text from the left,
  replaces each match by the match between the two tags, and resumes behind the match.
  This scan is \<open>findAll\<close>.
\<close>

definition regexMeta :: "char set" where
  "regexMeta = set ''^$.|?*+()[]{}'' \<union> {char_of (92 :: nat)}"

definition regexLiteral :: "string \<Rightarrow> bool" where
  "regexLiteral query = (query \<noteq> [] \<and> list_all (\<lambda>c. c \<notin> regexMeta) query)"

datatype segment = Unmatched char | Matched string

function findAll :: "string \<Rightarrow> string \<Rightarrow> segment list" where
  "findAll [] q = []"
| "findAll (c # cs) q =
     (if q \<noteq> [] \<and> startsWith (toLowerCase (c # cs)) (toLowerCase q)
      then Matched (take (length q) (c # cs)) # findAll (drop (length q) (c # cs)) q
      else Unmatched c # findAll cs q)"
  by pat_completeness auto
termination
  by (relation "measure (\<lambda>(text, q). length text)") auto

fun segmentText :: "segment \<Rightarrow> string" where
  "segmentText (Unmatched c) = [c]"
| "segmentText (Matched s) = s"

fun render :: "segment \<Rightarrow> string" where
  "render (Unmatched c) = [c]"
| "render (Matched s) = ''<mark>'' @ s @ ''</mark>''"

definition replaceAllIgnoreCase :: "string \<Rightarrow> string \<Rightarrow> string" where
  "replaceAllIgnoreCase text q = concat (map render (findAll text q))"

text \<open>
  For every other query (one with a special character, or the empty one) the result is
  what the regular-expression library of Java computes. It is a parameter of the model:
  \<open>rx text query\<close> is the string returned, or \<open>None\<close> when \<open>replaceAll\<close> throws, as it
  does with \<open>PatternSyntaxException\<close> on a malformed expression.
\<close>

type_synonym regexEngine = "string \<Rightarrow> string \<Rightarrow> string option"

definition highlightText :: "regexEngine \<Rightarrow> string \<Rightarrow> string \<Rightarrow> exn + string" where
  "highlightText rx text query =
     (if regexLiteral query then Inr (replaceAllIgnoreCase text query)
      else case rx text query of
             None \<Rightarrow> Inl PatternSyntaxException
           | Some h \<Rightarrow> Inr h)"

subsection \<open>The data classes\<close>

text \<open>\<open>SearchIndex\<close> (lines 249 to 255) and \<open>SearchResult\<close> (lines 264 to 272).\<close>

record SearchIndex =
  idx_id :: int
  idx_title :: string
  idx_content :: string
  idx_excerpt :: "string option"
  idx_tags :: "string list"

record SearchResult =
  sr_id :: int
  sr_title :: string
  sr_content :: string
  sr_excerpt :: "string option"
  sr_highlightedTitle :: string
  sr_highlightedContent :: string
  sr_score :: real

text \<open>
  The entity \<open>Post\<close> with the columns that \<open>indexPost\<close> and \<open>convertToPostResponse\<close>
  read, and the response built from it. Dates are numbers.
\<close>

type_synonym LocalDateTime = nat

datatype Status = DRAFT | PUBLISHED | ARCHIVED

record Tag =
  tag_name :: string

record User =
  user_username :: string
  user_profileImage :: "string option"

record Category =
  category_name :: string
  category_slug :: string

record Post =
  post_id :: int
  post_title :: string
  post_slug :: string
  post_excerpt :: "string option"
  post_content :: string
  post_featuredImage :: "string option"
  post_status :: Status
  post_viewCount :: int
  post_likeCount :: int
  post_commentCount :: int
  post_readingTime :: int
  post_isFeatured :: bool
  post_publishedAt :: "LocalDateTime option"
  post_createdAt :: LocalDateTime
  post_updatedAt :: "LocalDateTime option"
  post_author :: User
  post_category :: "Category option"
  post_tags :: "Tag list"

record PostResponse =
  pr_id :: int
  pr_title :: string
  pr_slug :: string
  pr_excerpt :: "string option"
  pr_content :: string
  pr_featuredImage :: "string option"
  pr_status :: Status
  pr_viewCount :: int
  pr_likeCount :: int
  pr_commentCount :: int
  pr_readingTime :: int
  pr_isFeatured :: bool
  pr_publishedAt :: "LocalDateTime option"
  pr_authorName :: string
  pr_authorProfileImage :: "string option"
  pr_categoryName :: "string option"
  pr_categorySlug :: "string option"
  pr_highlightedTitle :: string
  pr_highlightedContent :: string
  pr_searchScore :: real
  pr_createdAt :: LocalDateTime
  pr_updatedAt :: "LocalDateTime option"

text \<open>
  The request for a page, with \<open>getOffset\<close> as \<open>PageRequest\<close> computes it (in \<open>long\<close>,
  where the product of two \<open>int\<close> cannot overflow), and the page returned: the three
  arguments that \<open>searchPostsBody\<close> passes to \<open>PageImpl\<close>.
\<close>

record Pageable =
  pageNumber :: int
  pageSize :: int

definition getOffset :: "Pageable \<Rightarrow> int" where
  "getOffset pageable = pageNumber pageable * pageSize pageable"

record 'a Page =
  page_content :: "'a list"
  page_pageable :: Pageable
  page_total :: int

text \<open>
  The state of the service: the repository, read through \<open>findById\<close>, and the index.
  The \<open>ConcurrentHashMap\<close> is an association list with one pair for each key, in the
  order in which \<open>values()\<close> iterates; \<open>put\<close> is \<open>AList.update\<close> and \<open>remove\<close> is
  \<open>AList.delete\<close>. A \<open>put\<close> on a key that is present replaces the value where it is;
  where the hash table places a new key in the iteration order is not modelled (the list
  takes it at the end), and no statement below depends on that place.

  The third component is the cache named \<open>search\<close> of line 48, from keys to the pages
  stored under them. The class never evicts it, and neither does \<open>PostService\<close>, whose
  \<open>@CacheEvict\<close> annotations name the caches \<open>posts\<close> and \<open>post\<close> only; whether entries
  expire is a matter of the cache's configuration, which the source does not hold, so
  the model keeps every entry.
\<close>

record SearchService =
  postRepository :: "int \<Rightarrow> Post option"
  searchIndex :: "(int \<times> SearchIndex) list"
  searchCache :: "(string \<times> PostResponse Page) list"

subsection \<open>Java \<open>int\<close> and \<open>List.subList\<close>\<close>

text \<open>The narrowing cast \<open>(int)\<close>, which is also the result of an \<open>int\<close> addition.\<close>

definition toInt :: "int \<Rightarrow> int" where
  "toInt x = (x + 2147483648) mod 4294967296 - 2147483648"

definition subList :: "'a list \<Rightarrow> int \<Rightarrow> int \<Rightarrow> exn + 'a list" where
  "subList xs fromIndex toIndex =
     (if fromIndex < 0 then Inl IndexOutOfBoundsException
      else if toIndex > int (length xs) then Inl IndexOutOfBoundsException
      else if fromIndex > toIndex then Inl (IllegalArgumentException FromIndexAboveToIndex)
      else Inr (take (nat (toIndex - fromIndex)) (drop (nat fromIndex) xs)))"

subsection \<open>Scoring (lines 142 to 176)\<close>

text \<open>The loop over the tags: the first tag that contains the query adds 2 and ends the loop.\<close>

fun tagLoop :: "real \<Rightarrow> string list \<Rightarrow> string \<Rightarrow> real" where
  "tagLoop score [] query = score"
| "tagLoop score (tag # tags) query =
     (if contains (toLowerCase tag) (toLowerCase query) then score + 2
      else tagLoop score tags query)"

definition calculateRelevance :: "regexEngine \<Rightarrow> SearchIndex \<Rightarrow> string \<Rightarrow> exn + SearchResult" where
  "calculateRelevance rx index query =
     bindE (if contains (toLowerCase (idx_title index)) (toLowerCase query)
            then bindE (highlightText rx (idx_title index) query) (\<lambda>h. Inr (0 + 3, h))
            else Inr (0, idx_title index))
       (\<lambda>(score1, highlightedTitle).
     bindE (if contains (toLowerCase (idx_content index)) (toLowerCase query)
            then bindE (highlightText rx (idx_content index) query) (\<lambda>h. Inr (score1 + 1, h))
            else Inr (score1, idx_content index))
       (\<lambda>(score2, highlightedContent).
     Inr \<lparr>sr_id = idx_id index,
          sr_title = idx_title index,
          sr_content = idx_content index,
          sr_excerpt = idx_excerpt index,
          sr_highlightedTitle = highlightedTitle,
          sr_highlightedContent = highlightedContent,
          sr_score = tagLoop score2 (idx_tags index) query\<rparr>))"

subsection \<open>Ranking (lines 124 to 133)\<close>

text \<open>
  The stream maps, filters and sorts; the comparator orders by descending score, which
  is the ascending order of the negated score. The stream over \<open>values()\<close> of a
  \<open>ConcurrentHashMap\<close> is not an ordered one, and for such a stream \<open>sorted\<close> promises no
  stability: the order of results of equal score is the library's choice. \<open>sort_key\<close>
  makes one such choice (it keeps them in the order of the list), and no statement below
  is about the order of results of equal score.
\<close>

definition performSearch :: "regexEngine \<Rightarrow> SearchService \<Rightarrow> string \<Rightarrow> exn + SearchResult list" where
  "performSearch rx this query =
     bindE (mapE (\<lambda>index. calculateRelevance rx index query) (map snd (searchIndex this)))
       (\<lambda>scored. Inr (sort_key (\<lambda>result. - sr_score result)
                        (filter (\<lambda>result. sr_score result > 0) scored)))"

subsection \<open>Conversion (lines 211 to 240)\<close>

definition convertToPostResponse :: "SearchService \<Rightarrow> SearchResult \<Rightarrow> exn + PostResponse" where
  "convertToPostResponse this result =
     (case postRepository this (sr_id result) of
        None \<Rightarrow> Inl (RuntimeException (sr_id result))
      | Some post \<Rightarrow>
          Inr \<lparr>pr_id = post_id post,
               pr_title = post_title post,
               pr_slug = post_slug post,
               pr_excerpt = post_excerpt post,
               pr_content = post_content post,
               pr_featuredImage = post_featuredImage post,
               pr_status = post_status post,
               pr_viewCount = post_viewCount post,
               pr_likeCount = post_likeCount post,
               pr_commentCount = post_commentCount post,
               pr_readingTime = post_readingTime post,
               pr_isFeatured = post_isFeatured post,
               pr_publishedAt = post_publishedAt post,
               pr_authorName = user_username (post_author post),
               pr_authorProfileImage = user_profileImage (post_author post),
               pr_categoryName = map_option category_name (post_category post),
               pr_categorySlug = map_option category_slug (post_category post),
               pr_highlightedTitle = sr_highlightedTitle result,
               pr_highlightedContent = sr_highlightedContent result,
               pr_searchScore = sr_score result,
               pr_createdAt = post_createdAt post,
               pr_updatedAt = post_updatedAt post\<rparr>)"

subsection \<open>The operations of the service\<close>

text \<open>
  \<open>searchPostsBody\<close> is the body of \<open>searchPosts\<close> (lines 49 to 78). It reads the index
  and assigns nothing; the state it returns is the state it was given.
\<close>

definition searchPostsBody ::
  "regexEngine \<Rightarrow> string \<Rightarrow> Pageable \<Rightarrow> SearchService \<Rightarrow> (exn + PostResponse Page) \<times> SearchService" where
  "searchPostsBody rx query pageable this =
     (if trim query = [] then Inl (IllegalArgumentException EmptyQuery)
      else
        let normalizedQuery = normalizeQuery query in
        bindE (performSearch rx this normalizedQuery) (\<lambda>results.
          let start = toInt (getOffset pageable);
              endIndex = min (toInt (start + pageSize pageable)) (int (length results))
          in
          bindE (subList results start endIndex) (\<lambda>pagedResults.
          bindE (mapE (convertToPostResponse this) pagedResults) (\<lambda>postResponses.
          Inr \<lparr>page_content = postResponses,
               page_pageable = pageable,
               page_total = int (length results)\<rparr>))),
      this)"

text \<open>
  The key of line 48, \<open>#query + '_' + #pageable.pageNumber + '_' + #pageable.pageSize\<close>:
  the query as the caller wrote it and the two numbers in decimal.
\<close>

definition digit :: "nat \<Rightarrow> char" where
  "digit d = char_of (48 + d)"

function natToString :: "nat \<Rightarrow> string" where
  "natToString n =
     (if n < 10 then [digit n] else natToString (n div 10) @ [digit (n mod 10)])"
  by pat_completeness auto
termination
  by (relation "measure id") auto

declare natToString.simps [simp del]

definition intToString :: "int \<Rightarrow> string" where
  "intToString i =
     (if i < 0 then CHR ''-'' # natToString (nat (- i)) else natToString (nat i))"

definition cacheKey :: "string \<Rightarrow> Pageable \<Rightarrow> string" where
  "cacheKey query pageable =
     query @ ''_'' @ intToString (pageNumber pageable) @ ''_'' @ intToString (pageSize pageable)"

text \<open>
  \<open>searchPosts\<close> as a caller reaches it (line 48 with \<open>@EnableCaching\<close>): a page stored
  under the key is returned without running the body; otherwise the body runs, and the
  page it returns is stored under the key. An exception is passed on and nothing is
  stored.
\<close>

definition searchPosts ::
  "regexEngine \<Rightarrow> string \<Rightarrow> Pageable \<Rightarrow> SearchService \<Rightarrow> (exn + PostResponse Page) \<times> SearchService" where
  "searchPosts rx query pageable this =
     (let key = cacheKey query pageable in
      case map_of (searchCache this) key of
        Some page \<Rightarrow> (Inr page, this)
      | None \<Rightarrow>
          (case searchPostsBody rx query pageable this of
             (Inl e, this') \<Rightarrow> (Inl e, this')
           | (Inr page, this') \<Rightarrow>
               (Inr page,
                this'\<lparr>searchCache := AList.update key page (searchCache this')\<rparr>)))"

text \<open>
  \<open>indexPost\<close> (lines 86 to 102) and \<open>removePostFromIndex\<close> (lines 110 to 116). Neither
  touches the cache.
\<close>

definition indexPost :: "Post \<Rightarrow> SearchService \<Rightarrow> SearchService" where
  "indexPost post this =
     (let index = \<lparr>idx_id = post_id post,
                   idx_title = post_title post,
                   idx_content = post_content post,
                   idx_excerpt = post_excerpt post,
                   idx_tags = map tag_name (post_tags post)\<rparr>
      in this\<lparr>searchIndex := AList.update (post_id post) index (searchIndex this)\<rparr>)"

definition removePostFromIndex :: "int \<Rightarrow> SearchService \<Rightarrow> SearchService" where
  "removePostFromIndex postId this =
     this\<lparr>searchIndex := AList.delete postId (searchIndex this)\<rparr>"

subsection \<open>Notions used in the statements\<close>

text \<open>
  The query \<open>q\<close> occurs in \<open>text\<close> at offset \<open>i\<close>, up to case; it is a case-insensitive
  substring of \<open>text\<close> when it occurs at some offset.
\<close>

definition occursAt :: "string \<Rightarrow> string \<Rightarrow> nat \<Rightarrow> bool" where
  "occursAt q text i = (toLowerCase (take (length q) (drop i text)) = toLowerCase q)"

definition ciSubstring :: "string \<Rightarrow> string \<Rightarrow> bool" where
  "ciSubstring q text = list_ex (occursAt q text) [0..<Suc (length text)]"

text \<open>
  The normal form of a trimmed query, written without the string operations of the code:
  the words of the query, where a word is a maximal run of characters other than
  whitespace, joined by single spaces, with every letter \<open>A\<close> to \<open>Z\<close> replaced by its
  lower-case letter and every other character kept.
\<close>

definition lowerOf :: "char \<Rightarrow> char" where
  "lowerOf c =
     (case map_of (zip ''ABCDEFGHIJKLMNOPQRSTUVWXYZ'' ''abcdefghijklmnopqrstuvwxyz'') c of
        None \<Rightarrow> c
      | Some l \<Rightarrow> l)"

fun fields :: "string \<Rightarrow> string list" where
  "fields [] = [[]]"
| "fields (c # cs) =
     (if isWhitespace c then [] # fields cs
      else (case fields cs of
              [] \<Rightarrow> [[c]]
            | f # fs \<Rightarrow> (c # f) # fs))"

definition splitWords :: "string \<Rightarrow> string list" where
  "splitWords s = filter (\<lambda>w. w \<noteq> []) (fields s)"

fun joinWords :: "string list \<Rightarrow> string" where
  "joinWords [] = []"
| "joinWords [w] = w"
| "joinWords (w # v # ws) = w @ CHR '' '' # joinWords (v # ws)"

definition normalForm :: "string \<Rightarrow> string" where
  "normalForm trimmed = map lowerOf (joinWords (splitWords trimmed))"

text \<open>
  A segmentation of \<open>text\<close> marks the occurrences that a scan from the left meets: its
  segments spell the text; a matched segment has the length of the query and lies where
  the query occurs; an unmatched character lies where no occurrence starts.
\<close>

definition segmentOffset :: "segment list \<Rightarrow> nat \<Rightarrow> nat" where
  "segmentOffset segments i = length (concat (map segmentText (take i segments)))"

definition marksScannedOccurrences :: "string \<Rightarrow> string \<Rightarrow> segment list \<Rightarrow> bool" where
  "marksScannedOccurrences q text segments =
     (concat (map segmentText segments) = text \<and>
      list_all (\<lambda>i. case segments ! i of
                       Matched s \<Rightarrow> occursAt q text (segmentOffset segments i) \<and>
                                    length s = length q
                     | Unmatched c \<Rightarrow> \<not> occursAt q text (segmentOffset segments i))
               [0..<length segments])"

text \<open>
  The index as \<open>indexPost\<close> and \<open>removePostFromIndex\<close> keep it: one entry for each key,
  and the entry stored under a key carries that key as its id.
\<close>

definition indexInv :: "SearchService \<Rightarrow> bool" where
  "indexInv this =
     (distinct (map fst (searchIndex this)) \<and>
      list_all (\<lambda>(k, index). idx_id index = k) (searchIndex this))"

text \<open>
  The repository holds every indexed post, and \<open>findById\<close> answers with the post of the
  id it was asked for.
\<close>

definition repositoryInv :: "SearchService \<Rightarrow> bool" where
  "repositoryInv this =
     list_all (\<lambda>(k, index). case postRepository this (idx_id index) of
                               None \<Rightarrow> False
                             | Some post \<Rightarrow> post_id post = idx_id index)
              (searchIndex this)"

text \<open>
  Highlighting raises no exception for the query: it has no special character, or the
  regular-expression library accepts it on the titles and contents of the index.
\<close>

definition highlightReturns :: "regexEngine \<Rightarrow> string \<Rightarrow> SearchService \<Rightarrow> bool" where
  "highlightReturns rx query this =
     (regexLiteral query \<or>
      list_all (\<lambda>(k, index). rx (idx_title index) query \<noteq> None \<and>
                              rx (idx_content index) query \<noteq> None)
               (searchIndex this))"

text \<open>
  Two states of the service with the same repository whose indexes differ at most in the
  excerpts of their entries.
\<close>

definition sameUpToExcerpt :: "SearchService \<Rightarrow> SearchService \<Rightarrow> bool" where
  "sameUpToExcerpt this this' =
     (postRepository this' = postRepository this \<and>
      map (\<lambda>(k, index). (k, index\<lparr>idx_excerpt := None\<rparr>)) (searchIndex this') =
      map (\<lambda>(k, index). (k, index\<lparr>idx_excerpt := None\<rparr>)) (searchIndex this))"

text \<open>Number of pages of the given size that hold \<open>n\<close> results.\<close>

definition pageCount :: "nat \<Rightarrow> nat \<Rightarrow> nat" where
  "pageCount n pageLength = (n + pageLength - 1) div pageLength"

text \<open>
  The cache as \<open>searchPosts\<close> fills it: every page in it is one that the body of the
  search returned, for the key of its query and page request, in some earlier state of
  the service.
\<close>

definition cachedBySearch :: "regexEngine \<Rightarrow> SearchService \<Rightarrow> bool" where
  "cachedBySearch rx this =
     (\<forall>(key, page)\<in>set (searchCache this).
        \<exists>query pageable earlier.
          key = cacheKey query pageable \<and>
          fst (searchPostsBody rx query pageable earlier) = Inr page)"

text \<open>What a caller sees of an answer: the ids of the page, in order, and the total.\<close>

definition idsAndTotal :: "exn + PostResponse Page \<Rightarrow> exn + int list \<times> int" where
  "idsAndTotal answer =
     (case answer of
        Inl e \<Rightarrow> Inl e
      | Inr page \<Rightarrow> Inr (map pr_id (page_content page), page_total page))"

subsection \<open>Example data\<close>

text \<open>
  The two posts of the scenario in the specification, a repository that holds them, and
  a regular-expression library that rejects every expression it is asked about.
\<close>

definition rejectingEngine :: regexEngine where
  "rejectingEngine text query = None"

definition devnote :: User where
  "devnote = \<lparr>user_username = ''devnote'', user_profileImage = None\<rparr>"

definition springGuide :: Post where
  "springGuide =
     \<lparr>post_id = 1, post_title = ''Spring Boot Guide'', post_slug = ''spring-boot-guide'',
      post_excerpt = None, post_content = ''Learn Spring Boot basics'',
      post_featuredImage = None, post_status = PUBLISHED, post_viewCount = 0,
      post_likeCount = 0, post_commentCount = 0, post_readingTime = 1,
      post_isFeatured = False, post_publishedAt = None, post_createdAt = 0,
      post_updatedAt = None, post_author = devnote, post_category = None,
      post_tags = [\<lparr>tag_name = ''java''\<rparr>, \<lparr>tag_name = ''spring-boot''\<rparr>]\<rparr>"

definition dockerTips :: Post where
  "dockerTips =
     \<lparr>post_id = 2, post_title = ''Docker Tips'', post_slug = ''docker-tips'',
      post_excerpt = None, post_content = ''Spring apps in containers'',
      post_featuredImage = None, post_status = PUBLISHED, post_viewCount = 0,
      post_likeCount = 0, post_commentCount = 0, post_readingTime = 1,
      post_isFeatured = False, post_publishedAt = None, post_createdAt = 0,
      post_updatedAt = None, post_author = devnote, post_category = None,
      post_tags = [\<lparr>tag_name = ''docker''\<rparr>]\<rparr>"

definition exampleRepository :: "int \<Rightarrow> Post option" where
  "exampleRepository postId =
     (if postId = 1 then Some springGuide
      else if postId = 2 then Some dockerTips
      else None)"

definition emptyService :: SearchService where
  "emptyService =
     \<lparr>postRepository = exampleRepository, searchIndex = [], searchCache = []\<rparr>"

definition exampleService :: SearchService where
  "exampleService = indexPost dockerTips (indexPost springGuide emptyService)"

definition exampleServiceWithExcerpts :: SearchService where
  "exampleServiceWithExcerpts =
     indexPost (dockerTips\<lparr>post_excerpt := Some ''Containers''\<rparr>)
       (indexPost (springGuide\<lparr>post_excerpt := Some ''Introduction''\<rparr>) emptyService)"

text \<open>
  The example service after a search for "spring" and the removal of post 1; and a
  service that indexed post 2, answered a search for "spring", and then indexed post 1.
\<close>

definition serviceAfterRemoval :: SearchService where
  "serviceAfterRemoval =
     removePostFromIndex 1
       (snd (searchPosts rejectingEngine ''spring'' \<lparr>pageNumber = 0, pageSize = 10\<rparr>
               exampleService))"

definition serviceAfterIndexing :: SearchService where
  "serviceAfterIndexing =
     indexPost springGuide
       (snd (searchPosts rejectingEngine ''spring'' \<lparr>pageNumber = 0, pageSize = 1\<rparr>
               (indexPost dockerTips emptyService)))"

section \<open>Properties\<close>

subsection \<open>Exceptions as values\<close>

lemma bindE_Inl [simp]: "bindE (Inl e) f = Inl e"
  by (simp add: bindE_def)

lemma bindE_Inr [simp]: "bindE (Inr v) f = f v"
  by (simp add: bindE_def)

lemma bindE_eq_Inr: "bindE m f = Inr y \<longleftrightarrow> (\<exists>v. m = Inr v \<and> f v = Inr y)"
  by (cases m) auto

lemma bindE_eq_Inl: "bindE m f = Inl e \<longleftrightarrow> m = Inl e \<or> (\<exists>v. m = Inr v \<and> f v = Inl e)"
  by (cases m) auto

lemma mapE_eq_Inr: "mapE f xs = Inr ys \<longleftrightarrow> list_all2 (\<lambda>x y. f x = Inr y) xs ys"
proof (induction xs arbitrary: ys)
  case Nil
  then show ?case by auto
next
  case (Cons x xs)
  show ?case
    by (cases ys) (auto simp: bindE_eq_Inr Cons.IH)
qed

lemma mapE_eq_Inl: "mapE f xs = Inl e \<Longrightarrow> \<exists>x\<in>set xs. f x = Inl e"
  by (induction xs) (auto simp: bindE_eq_Inl)

lemma mapE_returns: "(\<And>x. x \<in> set xs \<Longrightarrow> \<exists>y. f x = Inr y) \<Longrightarrow> \<exists>ys. mapE f xs = Inr ys"
proof (induction xs)
  case Nil
  then show ?case by simp
next
  case (Cons x xs)
  then obtain y ys where "f x = Inr y" "mapE f xs = Inr ys"
    by (meson list.set_intros)
  then show ?case by simp
qed

subsection \<open>Substrings\<close>

lemma startsWith_take: "startsWith s q \<longleftrightarrow> take (length q) s = q"
  by (induction s q rule: startsWith.induct) auto

lemma contains_drop: "contains s q \<longleftrightarrow> (\<exists>i\<le>length s. startsWith (drop i s) q)"
proof (induction s)
  case Nil
  then show ?case by simp
next
  case (Cons c cs)
  have "(\<exists>i\<le>length (c # cs). startsWith (drop i (c # cs)) q) \<longleftrightarrow>
        startsWith (c # cs) q \<or> (\<exists>i\<le>length cs. startsWith (drop i cs) q)"
  proof
    assume "\<exists>i\<le>length (c # cs). startsWith (drop i (c # cs)) q"
    then obtain i where i: "i \<le> length (c # cs)" "startsWith (drop i (c # cs)) q" by blast
    show "startsWith (c # cs) q \<or> (\<exists>i\<le>length cs. startsWith (drop i cs) q)"
    proof (cases i)
      case 0
      with i show ?thesis by simp
    next
      case (Suc j)
      with i have "j \<le> length cs" "startsWith (drop j cs) q" by simp_all
      then show ?thesis by blast
    qed
  next
    assume "startsWith (c # cs) q \<or> (\<exists>i\<le>length cs. startsWith (drop i cs) q)"
    then show "\<exists>i\<le>length (c # cs). startsWith (drop i (c # cs)) q"
    proof
      assume "startsWith (c # cs) q"
      then have "startsWith (drop 0 (c # cs)) q" by simp
      then show ?thesis by blast
    next
      assume "\<exists>i\<le>length cs. startsWith (drop i cs) q"
      then obtain j where "j \<le> length cs" "startsWith (drop j cs) q" by blast
      then have "Suc j \<le> length (c # cs)" "startsWith (drop (Suc j) (c # cs)) q" by simp_all
      then show ?thesis by blast
    qed
  qed
  with Cons show ?case by simp
qed

lemma length_toLowerCase [simp]: "length (toLowerCase s) = length s"
  by (simp add: toLowerCase_def)

lemma startsWith_lower_occursAt:
  "startsWith (toLowerCase (drop i text)) (toLowerCase q) \<longleftrightarrow> occursAt q text i"
  by (simp add: startsWith_take occursAt_def toLowerCase_def take_map)

lemma contains_lower_iff:
  "contains (toLowerCase text) (toLowerCase q) \<longleftrightarrow> ciSubstring q text"
proof -
  have "contains (toLowerCase text) (toLowerCase q) \<longleftrightarrow>
        (\<exists>i\<le>length text. startsWith (toLowerCase (drop i text)) (toLowerCase q))"
    by (simp add: contains_drop toLowerCase_def drop_map)
  also have "\<dots> \<longleftrightarrow> ciSubstring q text"
    by (auto simp: ciSubstring_def list_ex_iff startsWith_lower_occursAt less_Suc_eq_le
             simp del: upt_Suc)
  finally show ?thesis .
qed

subsection \<open>Normalizing the query\<close>

lemma fields_nonempty [simp]: "fields s \<noteq> []"
  by (induction s) (auto split: list.splits)

lemma splitWords_Nil [simp]: "splitWords [] = []"
  by (simp add: splitWords_def)

lemma splitWords_whitespace: "isWhitespace c \<Longrightarrow> splitWords (c # cs) = splitWords cs"
  by (simp add: splitWords_def)

lemma splitWords_dropWhile: "splitWords (dropWhile isWhitespace cs) = splitWords cs"
  by (induction cs) (simp_all add: splitWords_whitespace)

lemma splitWords_letter_end: "\<not> isWhitespace c \<Longrightarrow> splitWords [c] = [[c]]"
  by (simp add: splitWords_def)

lemma splitWords_letter_whitespace:
  "\<not> isWhitespace c \<Longrightarrow> isWhitespace d \<Longrightarrow>
     splitWords (c # d # ds) = [c] # splitWords (d # ds)"
  by (simp add: splitWords_def)

lemma splitWords_letter_letter:
  assumes "\<not> isWhitespace c" and "\<not> isWhitespace d"
  shows "\<exists>w ws. splitWords (d # ds) = w # ws \<and> splitWords (c # d # ds) = (c # w) # ws"
  using assms by (cases "fields ds") (simp_all add: splitWords_def)

lemma splitWords_last:
  assumes "s \<noteq> []" and "\<not> isWhitespace (last s)"
  shows "splitWords s \<noteq> []"
  using assms
proof (induction s)
  case Nil
  then show ?case by simp
next
  case (Cons c cs)
  show ?case
  proof (cases "cs = []")
    case True
    with Cons.prems show ?thesis
      by (simp add: splitWords_def)
  next
    case False
    with Cons have "splitWords cs \<noteq> []"
      by simp
    then show ?thesis
      by (cases "fields cs") (auto simp: splitWords_def)
  qed
qed

lemma collapse_words:
  assumes "s = [] \<or> \<not> isWhitespace (last s)"
  shows "collapseWhitespace s =
           (if s \<noteq> [] \<and> isWhitespace (hd s) then '' '' else '''') @ joinWords (splitWords s)"
  using assms
proof (induction s rule: collapseWhitespace.induct)
  case 1
  then show ?case by simp
next
  case (2 c cs)
  show ?case
  proof (cases "isWhitespace c")
    case True
    let ?r = "dropWhile isWhitespace cs"
    from 2(3) True have cs: "cs \<noteq> []" "\<not> isWhitespace (last cs)"
      by (auto split: if_splits)
    then have "\<exists>x\<in>set cs. \<not> isWhitespace x"
      using last_in_set by blast
    then have r: "?r \<noteq> []"
      by (simp add: dropWhile_eq_Nil_conv)
    then have hd: "\<not> isWhitespace (hd ?r)"
      by (rule hd_dropWhile)
    have "last ?r = last cs"
      using r by (metis last_appendR takeWhile_dropWhile_id)
    with cs have "?r = [] \<or> \<not> isWhitespace (last ?r)"
      by simp
    from 2(1) [OF True this] r hd
    have "collapseWhitespace ?r = joinWords (splitWords ?r)"
      by simp
    with True show ?thesis
      by (simp add: splitWords_whitespace splitWords_dropWhile)
  next
    case False
    show ?thesis
    proof (cases cs)
      case Nil
      with False show ?thesis
        by (simp add: splitWords_letter_end)
    next
      case (Cons d ds)
      with 2(3) have "cs = [] \<or> \<not> isWhitespace (last cs)"
        by simp
      from 2(2) [OF False this]
      have IH: "collapseWhitespace cs =
                  (if cs \<noteq> [] \<and> isWhitespace (hd cs) then '' '' else '''') @
                  joinWords (splitWords cs)" .
      show ?thesis
      proof (cases "isWhitespace d")
        case True
        from Cons 2(3) have "splitWords cs \<noteq> []"
          by (intro splitWords_last) simp_all
        then obtain w ws where "splitWords cs = w # ws"
          by (cases "splitWords cs") auto
        with False True Cons IH show ?thesis
          by (simp add: splitWords_letter_whitespace)
      next
        case nonspace: False
        from splitWords_letter_letter [OF False nonspace, of ds] obtain w ws where
          "splitWords (d # ds) = w # ws" "splitWords (c # d # ds) = (c # w) # ws"
          by blast
        with False nonspace Cons IH show ?thesis
          by (cases ws) simp_all
      qed
    qed
  qed
qed

lemma dropWhile_end_parts:
  "d = rev (dropWhile P (rev d)) @ rev (takeWhile P (rev d))"
proof -
  have "rev (dropWhile P (rev d)) @ rev (takeWhile P (rev d)) =
        rev (takeWhile P (rev d) @ dropWhile P (rev d))"
    by (simp only: rev_append)
  also have "\<dots> = rev (rev d)"
    by (simp only: takeWhile_dropWhile_id)
  also have "\<dots> = d"
    by simp
  finally show ?thesis
    by simp
qed

lemma trim_parts:
  "\<exists>pre suf. query = pre @ trim query @ suf \<and> list_all isTrimmed pre \<and> list_all isTrimmed suf"
proof -
  let ?d = "dropWhile isTrimmed query"
  have d: "?d = trim query @ rev (takeWhile isTrimmed (rev ?d))"
    unfolding trim_def by (rule dropWhile_end_parts)
  have "query = takeWhile isTrimmed query @ ?d"
    by simp
  with d have "query = takeWhile isTrimmed query @ trim query @ rev (takeWhile isTrimmed (rev ?d))"
    by (simp only:)
  moreover have "list_all isTrimmed (takeWhile isTrimmed query)"
    by (auto simp: list_all_iff dest: set_takeWhileD)
  moreover have "list_all isTrimmed (rev (takeWhile isTrimmed (rev ?d)))"
    by (auto simp: list_all_iff dest: set_takeWhileD)
  ultimately show ?thesis
    by blast
qed

lemma trim_ends:
  assumes "trim query \<noteq> []"
  shows "\<not> isTrimmed (hd (trim query))" and "\<not> isTrimmed (last (trim query))"
proof -
  let ?d = "dropWhile isTrimmed query"
  let ?e = "dropWhile isTrimmed (rev ?d)"
  from assms have e: "?e \<noteq> []"
    by (simp add: trim_def)
  then have "\<not> isTrimmed (hd ?e)"
    by (rule hd_dropWhile)
  with e show "\<not> isTrimmed (last (trim query))"
    by (simp add: trim_def last_rev)
  from e have d: "?d \<noteq> []"
    by (cases "?d = []") simp_all
  then have first: "\<not> isTrimmed (hd ?d)"
    by (rule hd_dropWhile)
  have "?d = trim query @ rev (takeWhile isTrimmed (rev ?d))"
    unfolding trim_def by (rule dropWhile_end_parts)
  with assms have "hd ?d = hd (trim query)"
    by (metis hd_append2)
  with first show "\<not> isTrimmed (hd (trim query))"
    by simp
qed

lemma whitespace_is_trimmed: "isWhitespace c \<Longrightarrow> isTrimmed c"
  by (auto simp: isWhitespace_def isTrimmed_def)

lemma collapse_trimmed:
  "collapseWhitespace (trim query) = joinWords (splitWords (trim query))"
proof (cases "trim query = []")
  case True
  then show ?thesis by simp
next
  case False
  from trim_ends [OF False] have "\<not> isWhitespace (hd (trim query))"
    "\<not> isWhitespace (last (trim query))"
    using whitespace_is_trimmed by blast+
  with collapse_words [of "trim query"] show ?thesis
    by simp
qed

lemma upper_letters:
  "list_all (\<lambda>u. toLowerChar u = lowerOf u \<and> 65 \<le> (of_char u :: nat) \<and> (of_char u :: nat) \<le> 90)
     ''ABCDEFGHIJKLMNOPQRSTUVWXYZ''"
  by code_simp

lemma upper_codes:
  "list_all (\<lambda>n. char_of n \<in> set ''ABCDEFGHIJKLMNOPQRSTUVWXYZ'') [65..<91]"
  by code_simp

lemma toLowerChar_lowerOf: "toLowerChar c = lowerOf c"
proof (cases "65 \<le> (of_char c :: nat) \<and> (of_char c :: nat) \<le> 90")
  case True
  then have "(of_char c :: nat) \<in> {65..<91}"
    by simp
  then have "(of_char c :: nat) \<in> set [65..<91]"
    by (simp only: set_upt)
  with upper_codes have "char_of (of_char c :: nat) \<in> set ''ABCDEFGHIJKLMNOPQRSTUVWXYZ''"
    unfolding list_all_iff by blast
  then have "c \<in> set ''ABCDEFGHIJKLMNOPQRSTUVWXYZ''"
    by (simp only: char_of_char)
  with upper_letters show ?thesis
    unfolding list_all_iff by blast
next
  case False
  with upper_letters have "c \<notin> set ''ABCDEFGHIJKLMNOPQRSTUVWXYZ''"
    unfolding list_all_iff by blast
  then have "map_of (zip ''ABCDEFGHIJKLMNOPQRSTUVWXYZ'' ''abcdefghijklmnopqrstuvwxyz'') c = None"
    by (subst map_of_zip_is_None) simp_all
  then have "lowerOf c = c"
    by (simp only: lowerOf_def option.case)
  moreover from False have "toLowerChar c = c"
    by (auto simp: toLowerChar_def)
  ultimately show ?thesis
    by (simp only:)
qed

lemma toLowerCase_lowerOf: "toLowerCase s = map lowerOf s"
  by (simp add: toLowerCase_def toLowerChar_lowerOf)

lemma lower_letters:
  "list_all (\<lambda>l. lowerOf l = l) ''abcdefghijklmnopqrstuvwxyz''"
  by code_simp

lemma lowerOf_idem [simp]: "lowerOf (lowerOf c) = lowerOf c"
proof (cases "map_of (zip ''ABCDEFGHIJKLMNOPQRSTUVWXYZ'' ''abcdefghijklmnopqrstuvwxyz'') c")
  case None
  then show ?thesis
    by (simp only: lowerOf_def option.case)
next
  case (Some l)
  then have "(c, l) \<in> set (zip ''ABCDEFGHIJKLMNOPQRSTUVWXYZ'' ''abcdefghijklmnopqrstuvwxyz'')"
    by (rule map_of_SomeD)
  then have "l \<in> set ''abcdefghijklmnopqrstuvwxyz''"
    by (rule set_zip_rightD)
  with lower_letters have "lowerOf l = l"
    unfolding list_all_iff by blast
  moreover from Some have "lowerOf c = l"
    by (simp only: lowerOf_def option.case)
  ultimately show ?thesis
    by (simp only:)
qed

lemma normalizeQuery_normalForm: "normalizeQuery query = normalForm (trim query)"
  by (simp add: normalizeQuery_def normalForm_def collapse_trimmed toLowerCase_lowerOf)

lemma ciSubstring_spans:
  "ciSubstring q field \<longleftrightarrow>
     (\<exists>pre mid suf. field = pre @ mid @ suf \<and> map lowerOf mid = map lowerOf q)"
proof
  assume "ciSubstring q field"
  then obtain i where i: "i \<le> length field" "occursAt q field i"
    by (auto simp: ciSubstring_def list_ex_iff less_Suc_eq_le simp del: upt_Suc)
  have "field = take i field @ take (length q) (drop i field) @ drop (length q) (drop i field)"
    by (simp only: append_take_drop_id)
  moreover from i(2) have "map lowerOf (take (length q) (drop i field)) = map lowerOf q"
    by (simp add: occursAt_def toLowerCase_lowerOf)
  ultimately show "\<exists>pre mid suf. field = pre @ mid @ suf \<and> map lowerOf mid = map lowerOf q"
    by blast
next
  assume "\<exists>pre mid suf. field = pre @ mid @ suf \<and> map lowerOf mid = map lowerOf q"
  then obtain pre mid suf where parts: "field = pre @ mid @ suf" "map lowerOf mid = map lowerOf q"
    by blast
  from parts(2) have "length mid = length q"
    by (metis length_map)
  with parts have "occursAt q field (length pre)"
    by (simp add: occursAt_def toLowerCase_lowerOf)
  moreover from parts(1) have "length pre \<le> length field"
    by simp
  ultimately show "ciSubstring q field"
    by (auto simp: ciSubstring_def list_ex_iff less_Suc_eq_le simp del: upt_Suc)
qed

subsection \<open>Scoring one post\<close>

lemma tagLoop_sum:
  "tagLoop score tags query =
     score + (if \<exists>tag\<in>set tags. contains (toLowerCase tag) (toLowerCase query) then 2 else 0)"
  by (induction tags) auto

lemma highlightText_literal:
  "regexLiteral query \<Longrightarrow> highlightText rx text query = Inr (replaceAllIgnoreCase text query)"
  by (simp add: highlightText_def)

lemma highlightText_exn: "highlightText rx text query = Inl e \<Longrightarrow> e = PatternSyntaxException"
  by (auto simp: highlightText_def split: if_splits option.splits)

lemma calculateRelevance_exn:
  "calculateRelevance rx index query = Inl e \<Longrightarrow> e = PatternSyntaxException"
  by (auto simp: calculateRelevance_def bindE_eq_Inl split: if_splits dest: highlightText_exn)

lemma calculateRelevance_score:
  assumes "calculateRelevance rx index query = Inr result"
  shows "sr_score result =
           (if contains (toLowerCase (idx_title index)) (toLowerCase query) then 3 else 0)
         + (if contains (toLowerCase (idx_content index)) (toLowerCase query) then 1 else 0)
         + (if \<exists>tag\<in>set (idx_tags index). contains (toLowerCase tag) (toLowerCase query)
            then 2 else 0)"
  using assms
  by (auto simp: calculateRelevance_def bindE_eq_Inr tagLoop_sum split: if_splits)

lemma highlightText_returns:
  assumes "regexLiteral query \<or> rx text query \<noteq> None"
  shows "\<exists>h. highlightText rx text query = Inr h"
  using assms by (auto simp: highlightText_def)

lemma calculateRelevance_returns:
  assumes "regexLiteral query \<or>
           (rx (idx_title index) query \<noteq> None \<and> rx (idx_content index) query \<noteq> None)"
  shows "\<exists>result. calculateRelevance rx index query = Inr result"
proof -
  obtain h1 where h1: "highlightText rx (idx_title index) query = Inr h1"
    using assms highlightText_returns by blast
  obtain h2 where h2: "highlightText rx (idx_content index) query = Inr h2"
    using assms highlightText_returns by blast
  show ?thesis
    by (simp add: calculateRelevance_def h1 h2)
qed

text \<open>
  Claim C1. The query is normalized by trimming, collapsing whitespace and lower-casing:
  \<open>trim\<close> cuts from both ends the characters up to U+0020 and nothing else, and the
  normalized query is the normal form of the trimmed one, its words joined by single
  spaces, in lower case. The score that \<open>calculateRelevance\<close> computes for an indexed
  post and the normalized query is 3 if the query is a case-insensitive substring of the
  title, plus 1 if it is one of the content, plus 2 if it is one of at least one tag
  (once, however many tags match); the query is such a substring of a field when the
  field has a span whose lower-case form is the normalized query. The score is computed
  whenever the query has no character that is special in a regular expression; for the
  other queries it is this sum whenever highlighting raises no exception.
\<close>

theorem score_is_weighted_sum:
  "(regexLiteral (normalizeQuery query) \<longrightarrow>
      (\<exists>result. calculateRelevance rx index (normalizeQuery query) = Inr result)) \<and>
   (\<forall>result. calculateRelevance rx index (normalizeQuery query) = Inr result \<longrightarrow>
      sr_score result =
          (if ciSubstring (normalizeQuery query) (idx_title index) then 3 else 0)
        + (if ciSubstring (normalizeQuery query) (idx_content index) then 1 else 0)
        + (if \<exists>tag\<in>set (idx_tags index). ciSubstring (normalizeQuery query) tag
           then 2 else 0)) \<and>
   normalizeQuery query = normalForm (trim query) \<and>
   (\<exists>before after.
      query = before @ trim query @ after \<and>
      list_all isTrimmed before \<and> list_all isTrimmed after) \<and>
   (trim query \<noteq> [] \<longrightarrow>
      \<not> isTrimmed (hd (trim query)) \<and> \<not> isTrimmed (last (trim query))) \<and>
   (\<forall>field.
      ciSubstring (normalizeQuery query) field \<longleftrightarrow>
        (\<exists>before occurrence after.
           field = before @ occurrence @ after \<and>
           map lowerOf occurrence = normalizeQuery query))"
proof (intro conjI impI allI)
  assume "regexLiteral (normalizeQuery query)"
  then show "\<exists>result. calculateRelevance rx index (normalizeQuery query) = Inr result"
    using calculateRelevance_returns by blast
next
  fix result
  assume "calculateRelevance rx index (normalizeQuery query) = Inr result"
  from calculateRelevance_score [OF this]
  show "sr_score result =
          (if ciSubstring (normalizeQuery query) (idx_title index) then 3 else 0)
        + (if ciSubstring (normalizeQuery query) (idx_content index) then 1 else 0)
        + (if \<exists>tag\<in>set (idx_tags index). ciSubstring (normalizeQuery query) tag
           then 2 else 0)"
    by (simp only: contains_lower_iff)
next
  show "normalizeQuery query = normalForm (trim query)"
    by (rule normalizeQuery_normalForm)
next
  show "\<exists>before after.
      query = before @ trim query @ after \<and>
      list_all isTrimmed before \<and> list_all isTrimmed after"
    by (rule trim_parts)
next
  assume "trim query \<noteq> []"
  then show "\<not> isTrimmed (hd (trim query))" and "\<not> isTrimmed (last (trim query))"
    by (rule trim_ends)+
next
  fix field
  have "map lowerOf (normalizeQuery query) = normalizeQuery query"
    by (simp add: normalizeQuery_normalForm normalForm_def lowerOf_idem)
  then show "ciSubstring (normalizeQuery query) field \<longleftrightarrow>
        (\<exists>before occurrence after.
           field = before @ occurrence @ after \<and>
           map lowerOf occurrence = normalizeQuery query)"
    by (simp only: ciSubstring_spans)
qed

text \<open>
  A query with blanks at both ends, a tabulator, a line feed and two blanks between its
  words, and capital letters: it is normalized to "spring boot", which occurs in the
  title and in the content of the post but in none of its tags.
\<close>

theorem score_is_weighted_sum_witness:
  "normalizeQuery (''  Spring'' @ [CHR 0x09, CHR 0x0A] @ ''  BOOT '') = ''spring boot'' \<and>
   trim (''  Spring'' @ [CHR 0x09, CHR 0x0A] @ ''  BOOT '') =
     ''Spring'' @ [CHR 0x09, CHR 0x0A] @ ''  BOOT'' \<and>
   regexLiteral (normalizeQuery (''  Spring'' @ [CHR 0x09, CHR 0x0A] @ ''  BOOT '')) \<and>
   (\<exists>result.
      calculateRelevance rejectingEngine
        \<lparr>idx_id = 1, idx_title = ''Spring Boot Guide'',
         idx_content = ''Learn Spring Boot basics'', idx_excerpt = None,
         idx_tags = [''java'', ''spring-boot'']\<rparr>
        (normalizeQuery (''  Spring'' @ [CHR 0x09, CHR 0x0A] @ ''  BOOT '')) = Inr result \<and>
      sr_score result = 4)"
proof -
  let ?query = "''  Spring'' @ [CHR 0x09, CHR 0x0A] @ ''  BOOT ''"
  let ?index = "\<lparr>idx_id = 1, idx_title = ''Spring Boot Guide'',
                 idx_content = ''Learn Spring Boot basics'', idx_excerpt = None,
                 idx_tags = [''java'', ''spring-boot'']\<rparr>"
  have form: "normalForm (''Spring'' @ [CHR 0x09, CHR 0x0A] @ ''  BOOT'') = ''spring boot''"
    by code_simp
  have trimmed: "trim ?query = ''Spring'' @ [CHR 0x09, CHR 0x0A] @ ''  BOOT''"
    by code_simp
  have literal: "regexLiteral ''spring boot''"
    by code_simp
  have title: "ciSubstring ''spring boot'' ''Spring Boot Guide''"
    by code_simp
  have content: "ciSubstring ''spring boot'' ''Learn Spring Boot basics''"
    by code_simp
  have tags: "\<not> ciSubstring ''spring boot'' ''java''"
    "\<not> ciSubstring ''spring boot'' ''spring-boot''"
    by code_simp+
  note claim = score_is_weighted_sum [of ?query rejectingEngine ?index]
  note returns = claim [THEN conjunct1, rule_format]
  note score = claim [THEN conjunct2, THEN conjunct1, rule_format]
  note normalized = claim [THEN conjunct2, THEN conjunct2, THEN conjunct1]
  have normal: "normalizeQuery ?query = ''spring boot''"
    by (simp only: normalized trimmed form)
  from literal have "regexLiteral (normalizeQuery ?query)"
    by (simp only: normal)
  from returns [OF this] obtain result where
    result: "calculateRelevance rejectingEngine ?index (normalizeQuery ?query) = Inr result"
    by (rule exE)
  from score [OF result] have "sr_score result =
          (if ciSubstring ''spring boot'' (idx_title ?index) then 3 else 0)
        + (if ciSubstring ''spring boot'' (idx_content ?index) then 1 else 0)
        + (if \<exists>tag\<in>set (idx_tags ?index). ciSubstring ''spring boot'' tag
           then 2 else 0)"
    by (simp only: normal)
  also have "\<dots> = 4"
    by (simp add: title content tags)
  finally have four: "sr_score result = 4" .
  from result four have "\<exists>result.
      calculateRelevance rejectingEngine ?index (normalizeQuery ?query) = Inr result \<and>
      sr_score result = 4"
    by (intro exI conjI)
  with normal trimmed literal show ?thesis
    by (simp only: simp_thms)
qed

subsection \<open>The cache\<close>

lemma digit_not_underscore: "d < 10 \<Longrightarrow> digit d \<noteq> CHR ''_''"
proof
  assume d: "d < 10" and eq: "digit d = CHR ''_''"
  have "of_char (digit d) = (48 + d :: nat)"
    using d by (simp add: digit_def)
  moreover have "of_char (CHR ''_'') = (95 :: nat)"
    by simp
  ultimately show False
    using d eq by simp
qed

lemma natToString_no_underscore: "CHR ''_'' \<notin> set (natToString n)"
proof (induction n rule: natToString.induct)
  case (1 n)
  show ?case
  proof (cases "n < 10")
    case True
    then show ?thesis
      using digit_not_underscore [of n] by (subst natToString.simps) auto
  next
    case False
    have "n mod 10 < 10"
      by simp
    from digit_not_underscore [OF this] 1 [OF False] False show ?thesis
      by (subst natToString.simps) auto
  qed
qed

lemma intToString_no_underscore: "CHR ''_'' \<notin> set (intToString i)"
  by (simp add: intToString_def natToString_no_underscore)

lemma split_at_last:
  assumes eq: "xs @ c # a = ys @ c # b" and a: "c \<notin> set a" and b: "c \<notin> set b"
  shows "xs = ys \<and> a = b"
proof -
  have "takeWhile (\<lambda>x. x \<noteq> c) (rev a @ c # rev xs) = rev a"
    using a by (subst takeWhile_tail) (auto simp: takeWhile_eq_all_conv)
  moreover have "takeWhile (\<lambda>x. x \<noteq> c) (rev b @ c # rev ys) = rev b"
    using b by (subst takeWhile_tail) (auto simp: takeWhile_eq_all_conv)
  moreover have "rev a @ c # rev xs = rev b @ c # rev ys"
    using arg_cong [OF eq, of rev] by simp
  ultimately have "rev a = rev b"
    by (simp only:)
  then have ab: "a = b"
    by simp
  with eq show ?thesis
    by simp
qed

lemma cacheKey_query:
  assumes "cacheKey query pageable = cacheKey query' pageable'"
  shows "query = query'"
proof -
  let ?P = "intToString (pageNumber pageable)" and ?S = "intToString (pageSize pageable)"
  let ?P' = "intToString (pageNumber pageable')" and ?S' = "intToString (pageSize pageable')"
  from assms have "(query @ CHR ''_'' # ?P) @ CHR ''_'' # ?S = (query' @ CHR ''_'' # ?P') @ CHR ''_'' # ?S'"
    by (simp add: cacheKey_def)
  from split_at_last [OF this intToString_no_underscore intToString_no_underscore]
  have "query @ CHR ''_'' # ?P = query' @ CHR ''_'' # ?P'"
    by simp
  from split_at_last [OF this intToString_no_underscore intToString_no_underscore]
  show ?thesis
    by simp
qed

lemma searchPostsBody_snd [simp]: "snd (searchPostsBody rx query pageable this) = this"
  by (simp add: searchPostsBody_def)

lemma searchPosts_fst:
  "fst (searchPosts rx query pageable this) =
     (case map_of (searchCache this) (cacheKey query pageable) of
        Some page \<Rightarrow> Inr page
      | None \<Rightarrow> fst (searchPostsBody rx query pageable this))"
  by (simp add: searchPosts_def Let_def split: option.splits prod.splits sum.splits)

lemma searchPosts_snd:
  "snd (searchPosts rx query pageable this) =
     (case map_of (searchCache this) (cacheKey query pageable) of
        Some page \<Rightarrow> this
      | None \<Rightarrow>
          (case fst (searchPostsBody rx query pageable this) of
             Inl e \<Rightarrow> this
           | Inr page \<Rightarrow>
               this\<lparr>searchCache := AList.update (cacheKey query pageable) page (searchCache this)\<rparr>))"
proof -
  obtain r s where rs: "searchPostsBody rx query pageable this = (r, s)"
    by (cases "searchPostsBody rx query pageable this")
  then have "s = this"
    using searchPostsBody_snd [of rx query pageable this] by simp
  with rs show ?thesis
    by (simp add: searchPosts_def Let_def split: option.splits sum.splits)
qed

lemma searchPosts_index:
  "searchIndex (snd (searchPosts rx query pageable this)) = searchIndex this \<and>
   postRepository (snd (searchPosts rx query pageable this)) = postRepository this"
  by (simp add: searchPosts_snd split: option.splits sum.splits)

lemma set_update_subset: "set (AList.update k v al) \<subseteq> insert (k, v) (set al)"
  by (induction al) auto

lemma cachedBySearch_empty: "searchCache this = [] \<Longrightarrow> cachedBySearch rx this"
  by (simp add: cachedBySearch_def)

lemma cachedBySearch_indexPost:
  "cachedBySearch rx this \<Longrightarrow> cachedBySearch rx (indexPost post this)"
  by (simp add: cachedBySearch_def indexPost_def)

lemma cachedBySearch_removePostFromIndex:
  "cachedBySearch rx this \<Longrightarrow> cachedBySearch rx (removePostFromIndex postId this)"
  by (simp add: cachedBySearch_def removePostFromIndex_def)

lemma cachedBySearch_searchPosts:
  assumes "cachedBySearch rx this"
  shows "cachedBySearch rx (snd (searchPosts rx query pageable this))"
proof (cases "map_of (searchCache this) (cacheKey query pageable)")
  case (Some page)
  with assms show ?thesis
    by (simp add: searchPosts_snd)
next
  case None
  show ?thesis
  proof (cases "fst (searchPostsBody rx query pageable this)")
    case (Inl e)
    with None assms show ?thesis
      by (simp add: searchPosts_snd)
  next
    case (Inr page)
    have "\<exists>query' pageable' earlier.
            key = cacheKey query' pageable' \<and>
            fst (searchPostsBody rx query' pageable' earlier) = Inr p"
      if "(key, p) \<in> set (AList.update (cacheKey query pageable) page (searchCache this))"
      for key p
    proof -
      from that set_update_subset [of "cacheKey query pageable" page "searchCache this"]
      have "(key, p) = (cacheKey query pageable, page) \<or> (key, p) \<in> set (searchCache this)"
        by blast
      then show ?thesis
      proof
        assume "(key, p) = (cacheKey query pageable, page)"
        with Inr show ?thesis
          by blast
      next
        assume "(key, p) \<in> set (searchCache this)"
        with assms show ?thesis
          unfolding cachedBySearch_def by blast
      qed
    qed
    with None Inr show ?thesis
      by (simp add: searchPosts_snd cachedBySearch_def) blast
  qed
qed

lemma cached_page:
  assumes "cachedBySearch rx this"
    and "map_of (searchCache this) (cacheKey query pageable) = Some page"
  shows "\<exists>pageable' earlier. fst (searchPostsBody rx query pageable' earlier) = Inr page"
proof -
  from assms(2) have "(cacheKey query pageable, page) \<in> set (searchCache this)"
    by (rule map_of_SomeD)
  with assms(1) obtain query' pageable' earlier where
    key: "cacheKey query pageable = cacheKey query' pageable'"
    and page: "fst (searchPostsBody rx query' pageable' earlier) = Inr page"
    unfolding cachedBySearch_def by blast
  from key have "query = query'"
    by (rule cacheKey_query)
  with page show ?thesis
    by blast
qed

lemma exampleService_cache: "searchCache exampleService = []"
  by (simp add: exampleService_def indexPost_def emptyService_def Let_def)

lemma exampleServiceWithExcerpts_cache: "searchCache exampleServiceWithExcerpts = []"
  by (simp add: exampleServiceWithExcerpts_def indexPost_def emptyService_def Let_def)

lemma cached_page_survives:
  assumes "map_of (searchCache this) (cacheKey query pageable) = Some page"
  shows "fst (searchPosts rx query pageable (removePostFromIndex postId this)) = Inr page"
    and "fst (searchPosts rx query pageable (indexPost post this)) = Inr page"
  using assms by (simp_all add: searchPosts_fst removePostFromIndex_def indexPost_def)

subsection \<open>Exceptions of a search\<close>

lemma performSearch_exn:
  "performSearch rx this query = Inl e \<Longrightarrow> e = PatternSyntaxException"
  by (auto simp: performSearch_def bindE_eq_Inl dest!: mapE_eq_Inl calculateRelevance_exn)

lemma subList_exn:
  "subList xs a b = Inl e \<Longrightarrow>
     e = IndexOutOfBoundsException \<or> e = IllegalArgumentException FromIndexAboveToIndex"
  by (auto simp: subList_def split: if_splits)

lemma convertToPostResponse_exn:
  "convertToPostResponse this result = Inl e \<Longrightarrow> e = RuntimeException (sr_id result)"
  by (auto simp: convertToPostResponse_def split: option.splits)

lemma searchPostsBody_exn:
  assumes "trim query \<noteq> []" and "fst (searchPostsBody rx query pageable this) = Inl e"
  shows "e \<noteq> IllegalArgumentException EmptyQuery"
  using assms
  by (auto simp: searchPostsBody_def Let_def bindE_eq_Inl
           dest!: performSearch_exn subList_exn mapE_eq_Inl convertToPostResponse_exn)

lemma blank_query_not_cached:
  assumes "cachedBySearch rx this" and "trim query = []"
  shows "map_of (searchCache this) (cacheKey query pageable) = None"
proof (rule ccontr)
  assume "map_of (searchCache this) (cacheKey query pageable) \<noteq> None"
  then obtain page where "map_of (searchCache this) (cacheKey query pageable) = Some page"
    by blast
  from cached_page [OF assms(1) this] obtain pageable' earlier where
    "fst (searchPostsBody rx query pageable' earlier) = Inr page"
    by blast
  with assms(2) show False
    by (simp add: searchPostsBody_def)
qed

lemma searchPosts_blank:
  assumes "cachedBySearch rx this"
  shows "fst (searchPosts rx query pageable this) = Inl (IllegalArgumentException EmptyQuery)
           \<longleftrightarrow> trim query = []"
proof
  assume thrown: "fst (searchPosts rx query pageable this) = Inl (IllegalArgumentException EmptyQuery)"
  then have "fst (searchPostsBody rx query pageable this) = Inl (IllegalArgumentException EmptyQuery)"
    by (simp add: searchPosts_fst split: option.splits)
  then show "trim query = []"
    using searchPostsBody_exn by blast
next
  assume blank: "trim query = []"
  from blank_query_not_cached [OF assms this]
  show "fst (searchPosts rx query pageable this) = Inl (IllegalArgumentException EmptyQuery)"
    using blank by (simp add: searchPosts_fst searchPostsBody_def)
qed

lemma searchPosts_blank_state:
  assumes "cachedBySearch rx this" and "trim query = []"
  shows "snd (searchPosts rx query pageable this) = this"
  using blank_query_not_cached [OF assms] assms(2)
  by (simp add: searchPosts_snd searchPostsBody_def)

lemma trim_empty_iff: "trim query = [] \<longleftrightarrow> list_all isTrimmed query"
proof -
  have rest: "(\<forall>x\<in>set (dropWhile isTrimmed query). isTrimmed x) \<longleftrightarrow>
              dropWhile isTrimmed query = []"
  proof
    assume all: "\<forall>x\<in>set (dropWhile isTrimmed query). isTrimmed x"
    show "dropWhile isTrimmed query = []"
    proof (rule ccontr)
      assume ne: "dropWhile isTrimmed query \<noteq> []"
      then have "\<not> isTrimmed (hd (dropWhile isTrimmed query))"
        by (rule hd_dropWhile)
      moreover have "hd (dropWhile isTrimmed query) \<in> set (dropWhile isTrimmed query)"
        using ne by simp
      ultimately show False
        using all by blast
    qed
  next
    assume "dropWhile isTrimmed query = []"
    then have "set (dropWhile isTrimmed query) = {}"
      by (simp only: set_empty)
    then show "\<forall>x\<in>set (dropWhile isTrimmed query). isTrimmed x"
      by (simp only: ball_empty)
  qed
  have "trim query = [] \<longleftrightarrow> (\<forall>x\<in>set (dropWhile isTrimmed query). isTrimmed x)"
    unfolding trim_def rev_is_Nil_conv dropWhile_eq_Nil_conv set_rev ..
  also have "\<dots> \<longleftrightarrow> dropWhile isTrimmed query = []"
    by (rule rest)
  also have "\<dots> \<longleftrightarrow> list_all isTrimmed query"
    by (simp add: dropWhile_eq_Nil_conv list_all_iff)
  finally show ?thesis .
qed

text \<open>
  Claim C7. The body of \<open>searchPosts\<close> throws the \<open>IllegalArgumentException\<close> of the
  blank query exactly when the query is empty after \<open>trim\<close>, that is when every
  character of it is one that \<open>trim\<close> removes, and it leaves the service as it was, in
  this case and in every other. The same holds of \<open>searchPosts\<close> as a caller reaches
  it, through the cache: no page is ever stored for a blank query, so the call reaches
  the body, the exception is passed on and nothing is stored; and no call of
  \<open>searchPosts\<close> changes the index.
\<close>

theorem blank_query_rejected:
  "(fst (searchPostsBody rx query pageable this) = Inl (IllegalArgumentException EmptyQuery)
      \<longleftrightarrow> trim query = []) \<and>
   (trim query = [] \<longleftrightarrow> list_all isTrimmed query) \<and>
   snd (searchPostsBody rx query pageable this) = this \<and>
   (cachedBySearch rx this \<longrightarrow>
      (fst (searchPosts rx query pageable this) = Inl (IllegalArgumentException EmptyQuery)
         \<longleftrightarrow> trim query = []) \<and>
      (trim query = [] \<longrightarrow> snd (searchPosts rx query pageable this) = this)) \<and>
   searchIndex (snd (searchPosts rx query pageable this)) = searchIndex this"
proof (intro conjI impI)
  show "fst (searchPostsBody rx query pageable this) = Inl (IllegalArgumentException EmptyQuery)
          \<longleftrightarrow> trim query = []"
  proof
    assume "fst (searchPostsBody rx query pageable this) = Inl (IllegalArgumentException EmptyQuery)"
    then show "trim query = []"
      using searchPostsBody_exn by blast
  next
    assume "trim query = []"
    then show "fst (searchPostsBody rx query pageable this) = Inl (IllegalArgumentException EmptyQuery)"
      by (simp add: searchPostsBody_def)
  qed
  show "trim query = [] \<longleftrightarrow> list_all isTrimmed query"
    by (rule trim_empty_iff)
  show "snd (searchPostsBody rx query pageable this) = this"
    by (simp add: searchPostsBody_def)
  show "searchIndex (snd (searchPosts rx query pageable this)) = searchIndex this"
    by (simp add: searchPosts_index)
next
  assume "cachedBySearch rx this"
  then show "fst (searchPosts rx query pageable this) = Inl (IllegalArgumentException EmptyQuery)
          \<longleftrightarrow> trim query = []"
    by (rule searchPosts_blank)
next
  assume "cachedBySearch rx this" and "trim query = []"
  then show "snd (searchPosts rx query pageable this) = this"
    by (rule searchPosts_blank_state)
qed

theorem blank_query_rejected_witness:
  "trim ''   '' = [] \<and>
   fst (searchPostsBody rejectingEngine ''   '' \<lparr>pageNumber = 0, pageSize = 10\<rparr> exampleService) =
     Inl (IllegalArgumentException EmptyQuery) \<and>
   snd (searchPostsBody rejectingEngine ''   '' \<lparr>pageNumber = 0, pageSize = 10\<rparr> exampleService) =
     exampleService \<and>
   cachedBySearch rejectingEngine exampleService \<and>
   fst (searchPosts rejectingEngine ''   '' \<lparr>pageNumber = 0, pageSize = 10\<rparr> exampleService) =
     Inl (IllegalArgumentException EmptyQuery) \<and>
   snd (searchPosts rejectingEngine ''   '' \<lparr>pageNumber = 0, pageSize = 10\<rparr> exampleService) =
     exampleService"
proof -
  have blank: "trim ''   '' = []"
    by code_simp
  have cached: "cachedBySearch rejectingEngine exampleService"
    using exampleService_cache by (rule cachedBySearch_empty)
  note claim = blank_query_rejected
         [of rejectingEngine "''   ''" "\<lparr>pageNumber = 0, pageSize = 10\<rparr>" exampleService]
  note body = claim [THEN conjunct1]
  note state = claim [THEN conjunct2, THEN conjunct2, THEN conjunct1]
  note proxied = claim [THEN conjunct2, THEN conjunct2, THEN conjunct2, THEN conjunct1,
                        rule_format, OF cached]
  from body blank
  have "fst (searchPostsBody rejectingEngine ''   '' \<lparr>pageNumber = 0, pageSize = 10\<rparr> exampleService) =
          Inl (IllegalArgumentException EmptyQuery)"
    by (simp only:)
  moreover from proxied [THEN conjunct1] blank
  have "fst (searchPosts rejectingEngine ''   '' \<lparr>pageNumber = 0, pageSize = 10\<rparr> exampleService) =
          Inl (IllegalArgumentException EmptyQuery)"
    by (simp only:)
  moreover from proxied [THEN conjunct2] blank
  have "snd (searchPosts rejectingEngine ''   '' \<lparr>pageNumber = 0, pageSize = 10\<rparr> exampleService) =
          exampleService"
    by (simp only: simp_thms)
  ultimately show ?thesis
    using blank state cached by (simp only: simp_thms)
qed

subsection \<open>Maintaining the index\<close>

text \<open>
  Claim C4, as amended. \<open>indexPost\<close> validates nothing: for every post, also one with an
  empty title or an empty content, it returns normally, and afterwards the index maps
  the id of the post to its projection and every other id as before. The repository and
  the cache are as before.
\<close>

theorem indexPost_stores_every_post:
  "map_of (searchIndex (indexPost post this)) =
     (map_of (searchIndex this))
       (post_id post \<mapsto>
          \<lparr>idx_id = post_id post, idx_title = post_title post,
           idx_content = post_content post, idx_excerpt = post_excerpt post,
           idx_tags = map tag_name (post_tags post)\<rparr>) \<and>
   postRepository (indexPost post this) = postRepository this \<and>
   searchCache (indexPost post this) = searchCache this"
  by (simp add: indexPost_def update_conv')

text \<open>
  Claim C4 as stated fails: a post with an empty title is indexed, and the index, empty
  before the call, holds it afterwards.
\<close>

theorem indexPost_empty_title_counterexample:
  "post_title (springGuide\<lparr>post_title := []\<rparr>) = [] \<and>
   searchIndex emptyService = [] \<and>
   searchIndex (indexPost (springGuide\<lparr>post_title := []\<rparr>) emptyService) =
     [(1, \<lparr>idx_id = 1, idx_title = [], idx_content = ''Learn Spring Boot basics'',
           idx_excerpt = None, idx_tags = [''java'', ''spring-boot'']\<rparr>)]"
  by (simp add: indexPost_def emptyService_def springGuide_def)

subsection \<open>Ranking\<close>

lemma performSearch_eq_Inr:
  "performSearch rx this query = Inr rs \<longleftrightarrow>
     (\<exists>scored. mapE (\<lambda>index. calculateRelevance rx index query) (map snd (searchIndex this))
                 = Inr scored \<and>
              rs = sort_key (\<lambda>result. - sr_score result)
                     (filter (\<lambda>result. sr_score result > 0) scored))"
  by (auto simp: performSearch_def bindE_eq_Inr)

lemma performSearch_returns:
  assumes "highlightReturns rx query this"
  shows "\<exists>rs. performSearch rx this query = Inr rs"
proof -
  have "\<exists>scored. mapE (\<lambda>index. calculateRelevance rx index query) (map snd (searchIndex this))
                   = Inr scored"
  proof (rule mapE_returns)
    fix index
    assume "index \<in> set (map snd (searchIndex this))"
    then obtain k where "(k, index) \<in> set (searchIndex this)"
      by auto
    with assms have "regexLiteral query \<or>
        (rx (idx_title index) query \<noteq> None \<and> rx (idx_content index) query \<noteq> None)"
      by (auto simp: highlightReturns_def list_all_iff)
    then show "\<exists>result. calculateRelevance rx index query = Inr result"
      by (rule calculateRelevance_returns)
  qed
  then show ?thesis
    by (auto simp: performSearch_def)
qed


lemma searchPostsBody_eq_Inr:
  assumes "fst (searchPostsBody rx query pageable this) = Inr page"
  shows "\<exists>results paged a b.
           performSearch rx this (normalizeQuery query) = Inr results \<and>
           subList results a b = Inr paged \<and>
           list_all2 (\<lambda>result response. convertToPostResponse this result = Inr response)
             paged (page_content page) \<and>
           page_total page = int (length results)"
proof -
  from assms have nonblank: "trim query \<noteq> []"
    by (auto simp: searchPostsBody_def split: if_splits)
  with assms show ?thesis
    by (fastforce simp: searchPostsBody_def Let_def bindE_eq_Inr mapE_eq_Inr)
qed

lemma list_all2_rhs_set:
  "list_all2 P xs ys \<Longrightarrow> y \<in> set ys \<Longrightarrow> \<exists>x\<in>set xs. P x y"
  by (induction rule: list_all2_induct) auto

lemma subList_subset: "subList xs a b = Inr ys \<Longrightarrow> set ys \<subseteq> set xs"
  by (auto simp: subList_def split: if_splits dest: in_set_takeD in_set_dropD)

lemma convertToPostResponse_copies:
  assumes "convertToPostResponse this result = Inr response"
  shows "pr_searchScore response = sr_score result"
    and "pr_highlightedTitle response = sr_highlightedTitle result"
    and "pr_highlightedContent response = sr_highlightedContent result"
    and "\<exists>post. postRepository this (sr_id result) = Some post \<and> pr_id response = post_id post"
  using assms by (auto simp: convertToPostResponse_def split: option.splits)





subsection \<open>The excerpt\<close>

lemma calculateRelevance_excerpt:
  "calculateRelevance rx (index\<lparr>idx_excerpt := e\<rparr>) query =
     map_sum id (\<lambda>r. r\<lparr>sr_excerpt := e\<rparr>) (calculateRelevance rx index query)"
  by (auto simp: calculateRelevance_def bindE_def split: sum.splits)

lemma mapE_map_sum:
  assumes "\<And>x. f (g x) = map_sum id h (f x)"
  shows "mapE f (map g xs) = map_sum id (map h) (mapE f xs)"
proof (induction xs)
  case Nil
  then show ?case by simp
next
  case (Cons x xs)
  show ?case
    by (cases "f x"; cases "mapE f xs") (simp_all add: assms Cons.IH)
qed

lemma mapE_map: "mapE f (map g xs) = mapE (\<lambda>x. f (g x)) xs"
  by (induction xs) simp_all

lemma insort_key_map_commute:
  assumes "\<And>x. f (h x) = f x"
  shows "insort_key f (h x) (map h xs) = map h (insort_key f x xs)"
  by (induction xs) (simp_all add: assms)

lemma sort_key_map_commute:
  assumes "\<And>x. f (h x) = f x"
  shows "sort_key f (map h xs) = map h (sort_key f xs)"
  by (induction xs) (simp_all add: insort_key_map_commute assms)

lemma ranked_erase:
  "sort_key (\<lambda>result. - sr_score result)
     (filter (\<lambda>result. sr_score result > 0) (map (\<lambda>r. r\<lparr>sr_excerpt := None\<rparr>) scored)) =
   map (\<lambda>r. r\<lparr>sr_excerpt := None\<rparr>)
     (sort_key (\<lambda>result. - sr_score result) (filter (\<lambda>result. sr_score result > 0) scored))"
proof -
  have "filter (\<lambda>result. sr_score result > 0) (map (\<lambda>r. r\<lparr>sr_excerpt := None\<rparr>) scored) =
        map (\<lambda>r. r\<lparr>sr_excerpt := None\<rparr>) (filter (\<lambda>result. sr_score result > 0) scored)"
    by (simp add: filter_map comp_def)
  then show ?thesis
    by (simp add: sort_key_map_commute)
qed

lemma performSearch_erase:
  assumes "map (\<lambda>(k, index). (k, index\<lparr>idx_excerpt := None\<rparr>)) (searchIndex this') =
           map (\<lambda>(k, index). (k, index\<lparr>idx_excerpt := None\<rparr>)) (searchIndex this)"
  shows "map_sum id (map (\<lambda>r. r\<lparr>sr_excerpt := None\<rparr>)) (performSearch rx this' query) =
         map_sum id (map (\<lambda>r. r\<lparr>sr_excerpt := None\<rparr>)) (performSearch rx this query)"
proof -
  let ?E = "\<lambda>index. index\<lparr>idx_excerpt := None\<rparr>"
  let ?e = "\<lambda>r. r\<lparr>sr_excerpt := None\<rparr>"
  let ?calc = "\<lambda>index. calculateRelevance rx index query"
  have docs: "map ?E (map snd (searchIndex this')) = map ?E (map snd (searchIndex this))"
  proof -
    have "map ?E (map snd idx) = map snd (map (\<lambda>(k, index). (k, ?E index)) idx)" for idx :: "(int \<times> SearchIndex) list"
      by (induction idx) auto
    from this [of "searchIndex this'"] this [of "searchIndex this"] assms
    show ?thesis
      by (simp only:)
  qed
  have step: "mapE ?calc (map ?E docs) = map_sum id (map ?e) (mapE ?calc docs)" for docs
    by (rule mapE_map_sum) (rule calculateRelevance_excerpt)
  have scored: "map_sum id (map ?e) (mapE ?calc (map snd (searchIndex this'))) =
                map_sum id (map ?e) (mapE ?calc (map snd (searchIndex this)))"
    using docs step by metis
  have ps: "map_sum id (map ?e) (performSearch rx s query) =
        bindE (map_sum id (map ?e) (mapE ?calc (map snd (searchIndex s))))
          (\<lambda>scored. Inr (sort_key (\<lambda>result. - sr_score result)
                           (filter (\<lambda>result. sr_score result > 0) scored)))" for s
    by (cases "mapE ?calc (map snd (searchIndex s))") (simp_all add: performSearch_def ranked_erase)
  show ?thesis
    by (simp only: ps scored)
qed

lemma convertToPostResponse_erase:
  "convertToPostResponse this (r\<lparr>sr_excerpt := e\<rparr>) = convertToPostResponse this r"
  by (cases "postRepository this (sr_id r)") (simp_all add: convertToPostResponse_def)

lemma convertToPostResponse_repository:
  "postRepository this' = postRepository this \<Longrightarrow>
     convertToPostResponse this' = convertToPostResponse this"
  by (simp add: convertToPostResponse_def fun_eq_iff)

lemma subList_map: "subList (map h xs) a b = map_sum id (map h) (subList xs a b)"
  by (simp add: subList_def take_map drop_map)

lemma page_of_erased:
  assumes "map (\<lambda>r. r\<lparr>sr_excerpt := None\<rparr>) rs' = map (\<lambda>r. r\<lparr>sr_excerpt := None\<rparr>) rs"
  shows "bindE (subList rs' a (min b (int (length rs')))) (\<lambda>pagedResults.
           bindE (mapE (convertToPostResponse this) pagedResults) (\<lambda>postResponses.
           Inr \<lparr>page_content = postResponses, page_pageable = pageable,
                page_total = int (length rs')\<rparr>)) =
         bindE (subList rs a (min b (int (length rs)))) (\<lambda>pagedResults.
           bindE (mapE (convertToPostResponse this) pagedResults) (\<lambda>postResponses.
           Inr \<lparr>page_content = postResponses, page_pageable = pageable,
                page_total = int (length rs)\<rparr>))"
proof -
  let ?e = "\<lambda>r. r\<lparr>sr_excerpt := None\<rparr>"
  have len: "length rs' = length rs"
    using assms by (metis length_map)
  have conv: "mapE (convertToPostResponse this) xs = mapE (convertToPostResponse this) (map ?e xs)" for xs
    by (simp add: mapE_map convertToPostResponse_erase)
  have sub: "map_sum id (map ?e) (subList rs' a c) = map_sum id (map ?e) (subList rs a c)" for c
    using assms by (metis subList_map)
  show ?thesis
  proof (cases "subList rs a (min b (int (length rs)))")
    case (Inl x)
    with sub [of "min b (int (length rs))"] have "subList rs' a (min b (int (length rs))) = Inl x"
      by (cases "subList rs' a (min b (int (length rs)))") simp_all
    with Inl len show ?thesis by simp
  next
    case (Inr paged)
    with sub [of "min b (int (length rs))"]
    obtain paged' where p': "subList rs' a (min b (int (length rs))) = Inr paged'"
      and eq: "map ?e paged' = map ?e paged"
      by (cases "subList rs' a (min b (int (length rs)))") simp_all
    have "mapE (convertToPostResponse this) paged' = mapE (convertToPostResponse this) paged"
      using conv [of paged'] conv [of paged] eq by simp
    with Inr p' len show ?thesis by simp
  qed
qed

lemma searchPostsBody_excerpt:
  assumes "sameUpToExcerpt this this'"
  shows "fst (searchPostsBody rx query pageable this') = fst (searchPostsBody rx query pageable this)"
proof (cases "trim query = []")
  case True
  then show ?thesis by (simp add: searchPostsBody_def)
next
  case False
  let ?e = "\<lambda>r. r\<lparr>sr_excerpt := None\<rparr>"
  from assms have "postRepository this' = postRepository this"
    by (simp add: sameUpToExcerpt_def)
  then have repo: "convertToPostResponse this' = convertToPostResponse this"
    by (rule convertToPostResponse_repository)
  from assms have ps: "map_sum id (map ?e) (performSearch rx this' (normalizeQuery query)) =
                       map_sum id (map ?e) (performSearch rx this (normalizeQuery query))"
    by (intro performSearch_erase) (simp add: sameUpToExcerpt_def)
  show ?thesis
  proof (cases "performSearch rx this (normalizeQuery query)")
    case (Inl x)
    with ps have "performSearch rx this' (normalizeQuery query) = Inl x"
      by (cases "performSearch rx this' (normalizeQuery query)") simp_all
    with Inl False show ?thesis by (simp add: searchPostsBody_def)
  next
    case (Inr rs)
    with ps obtain rs' where rs': "performSearch rx this' (normalizeQuery query) = Inr rs'"
      and eq: "map ?e rs' = map ?e rs"
      by (cases "performSearch rx this' (normalizeQuery query)") simp_all
    have unf: "fst (searchPostsBody rx query pageable s) =
            bindE (performSearch rx s (normalizeQuery query)) (\<lambda>results.
              bindE (subList results (toInt (getOffset pageable))
                       (min (toInt (toInt (getOffset pageable) + pageSize pageable))
                            (int (length results)))) (\<lambda>pagedResults.
              bindE (mapE (convertToPostResponse s) pagedResults) (\<lambda>postResponses.
              Inr \<lparr>page_content = postResponses, page_pageable = pageable,
                   page_total = int (length results)\<rparr>)))" for s
      using False by (simp add: searchPostsBody_def Let_def)
    have "fst (searchPostsBody rx query pageable this') =
            bindE (subList rs' (toInt (getOffset pageable))
                       (min (toInt (toInt (getOffset pageable) + pageSize pageable))
                            (int (length rs')))) (\<lambda>pagedResults.
              bindE (mapE (convertToPostResponse this) pagedResults) (\<lambda>postResponses.
              Inr \<lparr>page_content = postResponses, page_pageable = pageable,
                   page_total = int (length rs')\<rparr>))"
      by (simp only: unf rs' bindE_Inr repo)
    also have "\<dots> =
            bindE (subList rs (toInt (getOffset pageable))
                       (min (toInt (toInt (getOffset pageable) + pageSize pageable))
                            (int (length rs)))) (\<lambda>pagedResults.
              bindE (mapE (convertToPostResponse this) pagedResults) (\<lambda>postResponses.
              Inr \<lparr>page_content = postResponses, page_pageable = pageable,
                   page_total = int (length rs)\<rparr>))"
      by (rule page_of_erased [OF eq])
    also have "\<dots> = fst (searchPostsBody rx query pageable this)"
      by (simp only: unf Inr bindE_Inr)
    finally show ?thesis .
  qed
qed

lemma searchPosts_excerpt:
  assumes "sameUpToExcerpt this this'" and "searchCache this' = searchCache this"
  shows "fst (searchPosts rx query pageable this') = fst (searchPosts rx query pageable this)"
  using searchPostsBody_excerpt [OF assms(1), of rx query pageable] assms(2)
  by (simp add: searchPosts_fst split: option.splits)

text \<open>
  Claim C9. The excerpt of an indexed post takes no part in scoring or highlighting:
  changing it changes nothing in the result of \<open>calculateRelevance\<close> but the excerpt
  copied into it, and two states of the service that differ only in the excerpts of
  their index answer every search alike (same responses, same order, same total), in
  the body of \<open>searchPosts\<close> and, when they hold the same cache, through the cache.
\<close>

theorem excerpt_never_scored:
  "calculateRelevance rx (index\<lparr>idx_excerpt := e\<rparr>) query =
     map_sum id (\<lambda>result. result\<lparr>sr_excerpt := e\<rparr>) (calculateRelevance rx index query) \<and>
   (sameUpToExcerpt this this' \<longrightarrow>
      fst (searchPostsBody rx query pageable this') = fst (searchPostsBody rx query pageable this)) \<and>
   (sameUpToExcerpt this this' \<and> searchCache this' = searchCache this \<longrightarrow>
      fst (searchPosts rx query pageable this') = fst (searchPosts rx query pageable this))"
proof (intro conjI impI)
  show "calculateRelevance rx (index\<lparr>idx_excerpt := e\<rparr>) query =
     map_sum id (\<lambda>result. result\<lparr>sr_excerpt := e\<rparr>) (calculateRelevance rx index query)"
    by (rule calculateRelevance_excerpt)
next
  assume "sameUpToExcerpt this this'"
  then show "fst (searchPostsBody rx query pageable this') = fst (searchPostsBody rx query pageable this)"
    by (rule searchPostsBody_excerpt)
next
  assume "sameUpToExcerpt this this' \<and> searchCache this' = searchCache this"
  then show "fst (searchPosts rx query pageable this') = fst (searchPosts rx query pageable this)"
    using searchPosts_excerpt by blast
qed

theorem excerpt_never_scored_witness:
  "sameUpToExcerpt exampleService exampleServiceWithExcerpts \<and>
   fst (searchPostsBody rejectingEngine ''spring'' \<lparr>pageNumber = 0, pageSize = 10\<rparr>
          exampleServiceWithExcerpts) =
   fst (searchPostsBody rejectingEngine ''spring'' \<lparr>pageNumber = 0, pageSize = 10\<rparr> exampleService) \<and>
   searchCache exampleServiceWithExcerpts = searchCache exampleService \<and>
   fst (searchPosts rejectingEngine ''spring'' \<lparr>pageNumber = 0, pageSize = 10\<rparr>
          exampleServiceWithExcerpts) =
   fst (searchPosts rejectingEngine ''spring'' \<lparr>pageNumber = 0, pageSize = 10\<rparr> exampleService)"
proof -
  have same: "sameUpToExcerpt exampleService exampleServiceWithExcerpts"
    by (simp add: sameUpToExcerpt_def exampleService_def exampleServiceWithExcerpts_def
                  indexPost_def emptyService_def springGuide_def dockerTips_def)
  have cache: "searchCache exampleServiceWithExcerpts = searchCache exampleService"
    by (simp only: exampleService_cache exampleServiceWithExcerpts_cache)
  note claim = excerpt_never_scored
                 [where this = exampleService and this' = exampleServiceWithExcerpts
                    and rx = rejectingEngine and query = "''spring''"
                    and pageable = "\<lparr>pageNumber = 0, pageSize = 10\<rparr>"]
  from claim [THEN conjunct2, THEN conjunct1, rule_format, OF same]
       claim [THEN conjunct2, THEN conjunct2, rule_format, OF conjI, OF same cache]
       same cache
  show ?thesis
    by (intro conjI)
qed

subsection \<open>Removal\<close>

lemma indexInv_empty: "searchIndex this = [] \<Longrightarrow> indexInv this"
  by (simp add: indexInv_def)

lemma indexInv_indexPost:
  assumes "indexInv this"
  shows "indexInv (indexPost post this)"
proof -
  let ?index = "\<lparr>idx_id = post_id post, idx_title = post_title post,
                 idx_content = post_content post, idx_excerpt = post_excerpt post,
                 idx_tags = map tag_name (post_tags post)\<rparr>"
  let ?updated = "AList.update (post_id post) ?index (searchIndex this)"
  have idx: "searchIndex (indexPost post this) = ?updated"
    by (simp add: indexPost_def)
  from assms have "distinct (map fst ?updated)"
    by (simp add: indexInv_def distinct_update)
  moreover have "list_all (\<lambda>(k, index). idx_id index = k) ?updated"
    unfolding list_all_iff
  proof
    fix x
    assume "x \<in> set ?updated"
    then have "x = (post_id post, ?index) \<or> x \<in> set (searchIndex this)"
      using set_update_subset [of "post_id post" ?index "searchIndex this"] by blast
    then show "case x of (k, index) \<Rightarrow> idx_id index = k"
      using assms by (auto simp: indexInv_def list_all_iff)
  qed
  ultimately show ?thesis
    by (simp only: indexInv_def idx)
qed

lemma indexInv_removePostFromIndex:
  "indexInv this \<Longrightarrow> indexInv (removePostFromIndex postId this)"
  by (auto simp: indexInv_def removePostFromIndex_def list_all_iff AList.delete_eq
           intro: distinct_map_filter)

lemma values_after_delete:
  assumes "list_all (\<lambda>(k, index). idx_id index = k) idx"
  shows "map snd (AList.delete postId idx) = filter (\<lambda>index. idx_id index \<noteq> postId) (map snd idx)"
  using assms by (induction idx) (auto simp: AList.delete_eq)

lemma mapE_filter:
  assumes "mapE f xs = Inr ys"
    and "\<And>x y. f x = Inr y \<Longrightarrow> P x = Q y"
  shows "mapE f (filter P xs) = Inr (filter Q ys)"
  using assms(1)
proof (induction xs arbitrary: ys)
  case Nil
  then show ?case by simp
next
  case (Cons x xs)
  then obtain y ys' where y: "f x = Inr y" "mapE f xs = Inr ys'" "ys = y # ys'"
    by (auto simp: bindE_eq_Inr)
  from Cons.IH [OF y(2)] assms(2) [OF y(1)] y show ?case
    by simp
qed

lemma calculateRelevance_id:
  "calculateRelevance rx index query = Inr result \<Longrightarrow> sr_id result = idx_id index"
  by (auto simp: calculateRelevance_def bindE_eq_Inr split: if_splits)

lemma performSearch_after_remove:
  assumes "indexInv this" and "performSearch rx this query = Inr results"
  shows "performSearch rx (removePostFromIndex postId this) query =
           Inr (filter (\<lambda>result. sr_id result \<noteq> postId) results)"
proof -
  let ?calc = "\<lambda>index. calculateRelevance rx index query"
  from assms(2) obtain scored where
    scored: "mapE ?calc (map snd (searchIndex this)) = Inr scored"
    and results: "results = sort_key (\<lambda>result. - sr_score result)
                             (filter (\<lambda>result. sr_score result > 0) scored)"
    by (auto simp: performSearch_eq_Inr)
  from assms(1) have docs: "map snd (searchIndex (removePostFromIndex postId this)) =
      filter (\<lambda>index. idx_id index \<noteq> postId) (map snd (searchIndex this))"
    by (simp add: removePostFromIndex_def indexInv_def values_after_delete)
  have "mapE ?calc (filter (\<lambda>index. idx_id index \<noteq> postId) (map snd (searchIndex this))) =
          Inr (filter (\<lambda>result. sr_id result \<noteq> postId) scored)"
    using scored by (rule mapE_filter) (simp add: calculateRelevance_id)
  then have "performSearch rx (removePostFromIndex postId this) query =
          Inr (sort_key (\<lambda>result. - sr_score result)
                 (filter (\<lambda>result. sr_score result > 0)
                    (filter (\<lambda>result. sr_id result \<noteq> postId) scored)))"
    by (simp add: performSearch_def docs)
  also have "filter (\<lambda>result. sr_score result > 0)
                    (filter (\<lambda>result. sr_id result \<noteq> postId) scored) =
             filter (\<lambda>result. sr_id result \<noteq> postId)
                    (filter (\<lambda>result. sr_score result > 0) scored)"
    by (auto intro: filter_cong)
  finally show ?thesis
    by (simp add: results filter_sort)
qed

lemma results_distinct_ids:
  assumes "indexInv this" and "performSearch rx this query = Inr results"
  shows "distinct (map sr_id results)"
proof -
  let ?calc = "\<lambda>index. calculateRelevance rx index query"
  from assms(2) obtain scored where
    scored: "mapE ?calc (map snd (searchIndex this)) = Inr scored"
    and results: "results = sort_key (\<lambda>result. - sr_score result)
                             (filter (\<lambda>result. sr_score result > 0) scored)"
    by (auto simp: performSearch_eq_Inr)
  from assms(1) have keys: "map idx_id (map snd (searchIndex this)) = map fst (searchIndex this)"
    by (auto simp: indexInv_def list_all_iff)
  from assms(1) have "distinct (map fst (searchIndex this))"
    by (simp add: indexInv_def)
  with keys have dist: "distinct (map idx_id (map snd (searchIndex this)))"
    by (simp only:)
  from scored have "list_all2 (\<lambda>index result. sr_id result = idx_id index)
                      (map snd (searchIndex this)) scored"
    by (auto simp: mapE_eq_Inr calculateRelevance_id elim: list_all2_mono)
  then have "map sr_id scored = map idx_id (map snd (searchIndex this))"
    by (induction rule: list_all2_induct) simp_all
  with dist have "distinct (map sr_id scored)"
    by (simp only:)
  then have "distinct (map sr_id (filter (\<lambda>result. sr_score result > 0) scored))"
    by (rule distinct_map_filter)
  moreover have "mset (map sr_id results) =
                 mset (map sr_id (filter (\<lambda>result. sr_score result > 0) scored))"
    by (simp add: results)
  ultimately show ?thesis
    by (metis mset_eq_imp_distinct_iff)
qed

lemma length_filter_distinct_key:
  assumes "distinct (map f xs)"
  shows "length (filter (\<lambda>x. f x \<noteq> k) xs) = length xs - (if k \<in> f ` set xs then 1 else 0)"
  using assms by (induction xs) (auto simp: image_iff dest: length_pos_if_in_set)

lemma performSearch_ids_indexed:
  assumes "performSearch rx this query = Inr results" and "result \<in> set results"
  shows "\<exists>k index. (k, index) \<in> set (searchIndex this) \<and> idx_id index = sr_id result"
proof -
  from assms(1) obtain scored where
    scored: "mapE (\<lambda>index. calculateRelevance rx index query) (map snd (searchIndex this)) = Inr scored"
    and results: "results = sort_key (\<lambda>result. - sr_score result)
                             (filter (\<lambda>result. sr_score result > 0) scored)"
    by (auto simp: performSearch_eq_Inr)
  from assms(2) results have mem: "result \<in> set scored"
    by simp
  from scored have all2: "list_all2 (\<lambda>index result. calculateRelevance rx index query = Inr result)
                      (map snd (searchIndex this)) scored"
    by (simp add: mapE_eq_Inr)
  from list_all2_rhs_set [OF all2 mem] obtain index where
    index: "index \<in> set (map snd (searchIndex this))"
    "calculateRelevance rx index query = Inr result"
    by blast
  from index(1) obtain k where "(k, index) \<in> set (searchIndex this)"
    by auto
  moreover from calculateRelevance_id [OF index(2)] have "idx_id index = sr_id result"
    by simp
  ultimately show ?thesis
    by blast
qed

lemma page_ids:
  assumes "\<And>i post. postRepository this i = Some post \<Longrightarrow> post_id post = i"
    and "fst (searchPostsBody rx query pageable this) = Inr page"
    and "response \<in> set (page_content page)"
  shows "\<exists>results. performSearch rx this (normalizeQuery query) = Inr results \<and>
                   pr_id response \<in> sr_id ` set results"
proof -
  from searchPostsBody_eq_Inr [OF assms(2)] obtain results paged a b where
    ps: "performSearch rx this (normalizeQuery query) = Inr results"
    and sub: "subList results a b = Inr paged"
    and conv: "list_all2 (\<lambda>result response. convertToPostResponse this result = Inr response)
                 paged (page_content page)"
    by blast
  from list_all2_rhs_set [OF conv assms(3)] obtain result where
    r: "result \<in> set paged" "convertToPostResponse this result = Inr response"
    by blast
  from r(1) sub have mem: "result \<in> set results"
    using subList_subset by blast
  from convertToPostResponse_copies(4) [OF r(2)] obtain post where
    post: "postRepository this (sr_id result) = Some post" "pr_id response = post_id post"
    by blast
  from assms(1) [OF post(1)] post(2) have "pr_id response = sr_id result"
    by simp
  with mem have "pr_id response \<in> sr_id ` set results"
    by (simp add: rev_image_eqI)
  with ps show ?thesis
    by blast
qed

text \<open>
  On the index and in the body of the search, removal is complete: afterwards the index
  has no entry for the id and every other entry as before, every ranked list is the
  former one without the result of that id, and no page that the body computes carries
  the id.
\<close>

lemma removal_from_index_is_complete:
  assumes "indexInv this"
    and "\<And>i post. postRepository this i = Some post \<Longrightarrow> post_id post = i"
  shows "map_of (searchIndex (removePostFromIndex postId this)) =
           (map_of (searchIndex this))(postId := None) \<and>
         (postId \<notin> fst ` set (searchIndex this) \<longrightarrow> removePostFromIndex postId this = this) \<and>
         (\<forall>rx query results.
            performSearch rx this query = Inr results \<longrightarrow>
              performSearch rx (removePostFromIndex postId this) query =
                Inr (filter (\<lambda>result. sr_id result \<noteq> postId) results) \<and>
              length (filter (\<lambda>result. sr_id result \<noteq> postId) results) =
                length results - (if postId \<in> sr_id ` set results then 1 else 0)) \<and>
         (\<forall>rx query pageable page.
            fst (searchPostsBody rx query pageable (removePostFromIndex postId this)) = Inr page \<longrightarrow>
              postId \<notin> pr_id ` set (page_content page))"
proof (intro conjI allI impI)
  show "map_of (searchIndex (removePostFromIndex postId this)) =
           (map_of (searchIndex this))(postId := None)"
    by (simp add: removePostFromIndex_def delete_conv')
next
  assume "postId \<notin> fst ` set (searchIndex this)"
  then show "removePostFromIndex postId this = this"
    by (simp add: removePostFromIndex_def delete_id)
next
  fix rx query results
  assume ps: "performSearch rx this query = Inr results"
  with assms(1) show "performSearch rx (removePostFromIndex postId this) query =
                Inr (filter (\<lambda>result. sr_id result \<noteq> postId) results)"
    by (rule performSearch_after_remove)
  from assms(1) ps have "distinct (map sr_id results)"
    by (rule results_distinct_ids)
  then show "length (filter (\<lambda>result. sr_id result \<noteq> postId) results) =
                length results - (if postId \<in> sr_id ` set results then 1 else 0)"
    by (rule length_filter_distinct_key)
next
  fix rx query pageable page
  assume page: "fst (searchPostsBody rx query pageable (removePostFromIndex postId this)) = Inr page"
  show "postId \<notin> pr_id ` set (page_content page)"
  proof
    assume "postId \<in> pr_id ` set (page_content page)"
    then obtain response where resp: "response \<in> set (page_content page)" "pr_id response = postId"
      by auto
    have "post_id post = i" if "postRepository (removePostFromIndex postId this) i = Some post"
      for i post
      using that assms(2) by (simp add: removePostFromIndex_def)
    from page_ids [OF this page resp(1)] obtain results result where
      ps: "performSearch rx (removePostFromIndex postId this) (normalizeQuery query) = Inr results"
      and r: "result \<in> set results" "sr_id result = postId"
      using resp(2) by auto
    from performSearch_ids_indexed [OF ps r(1)] obtain k index where
      ki: "(k, index) \<in> set (searchIndex (removePostFromIndex postId this))"
          "idx_id index = sr_id result"
      by blast
    from assms(1) have "indexInv (removePostFromIndex postId this)"
      by (rule indexInv_removePostFromIndex)
    with ki have "k = postId"
      using r(2) by (auto simp: indexInv_def list_all_iff)
    with ki(1) show False
      by (auto simp: removePostFromIndex_def AList.delete_eq)
  qed
qed

text \<open>
  Claim C8 fails on the code. \<open>removePostFromIndex\<close> removes the entry from the index
  but leaves the cache of \<open>searchPosts\<close> as it is, and nothing else evicts it. In the
  example, the search for "spring" returns the posts 1 and 2 and stores this page; post
  1 is then removed, and the index holds post 2 only; the same search, repeated, is
  answered from the cache and still lists post 1, with a total of 2, where the body
  would now return post 2 alone.
\<close>

theorem removed_post_is_still_found:
  "idsAndTotal (fst (searchPosts rejectingEngine ''spring'' \<lparr>pageNumber = 0, pageSize = 10\<rparr>
                       exampleService)) = Inr ([1, 2], 2) \<and>
   map fst (searchIndex serviceAfterRemoval) = [2] \<and>
   idsAndTotal (fst (searchPosts rejectingEngine ''spring'' \<lparr>pageNumber = 0, pageSize = 10\<rparr>
                       serviceAfterRemoval)) = Inr ([1, 2], 2) \<and>
   idsAndTotal (fst (searchPostsBody rejectingEngine ''spring'' \<lparr>pageNumber = 0, pageSize = 10\<rparr>
                       serviceAfterRemoval)) = Inr ([2], 1)"
  by code_simp

subsection \<open>Highlighting\<close>

lemma findAll_text: "concat (map segmentText (findAll text q)) = text"
proof (induction "text" q rule: findAll.induct)
  case (1 q)
  then show ?case by simp
next
  case (2 c cs q)
  show ?case
  proof (cases "q \<noteq> [] \<and> startsWith (toLowerCase (c # cs)) (toLowerCase q)")
    case True
    with 2 have "concat (map segmentText (findAll (drop (length q) (c # cs)) q)) =
                 drop (length q) (c # cs)"
      by blast
    with True show ?thesis
      by (simp del: drop.simps take.simps add: append_take_drop_id)
  next
    case False
    with 2 have "concat (map segmentText (findAll cs q)) = cs"
      by blast
    with False show ?thesis
      by auto
  qed
qed

lemma startsWith_length: "startsWith s p \<Longrightarrow> length p \<le> length s"
  by (induction s p rule: startsWith.induct) auto

lemma occursAt_0: "occursAt q text 0 \<longleftrightarrow> startsWith (toLowerCase text) (toLowerCase q)"
  using startsWith_lower_occursAt [of 0 "text" q] by simp

lemma occursAt_drop: "occursAt q text (n + j) \<longleftrightarrow> occursAt q (drop n text) j"
  by (simp add: occursAt_def add.commute)

lemma findAll_segments:
  assumes "q \<noteq> []" and "findAll text q = pre @ seg # post"
  shows "case seg of
           Matched s \<Rightarrow> occursAt q text (length (concat (map segmentText pre))) \<and>
                        length s = length q
         | Unmatched c \<Rightarrow> \<not> occursAt q text (length (concat (map segmentText pre)))"
  using assms
proof (induction "text" q arbitrary: pre rule: findAll.induct)
  case (1 q)
  then show ?case by simp
next
  case (2 c cs q)
  note nonempty = 2(3) and segments = 2(4)
  show ?case
  proof (cases "q \<noteq> [] \<and> startsWith (toLowerCase (c # cs)) (toLowerCase q)")
    case True
    let ?m = "take (length q) (c # cs)"
    from True have len: "length ?m = length q"
      using startsWith_length [of "toLowerCase (c # cs)" "toLowerCase q"] by simp
    from True segments have eq: "Matched ?m # findAll (drop (length q) (c # cs)) q = pre @ seg # post"
      by simp
    show ?thesis
    proof (cases pre)
      case Nil
      with eq have "seg = Matched ?m" by simp
      with True Nil len show ?thesis
        by (simp add: occursAt_0 del: take.simps)
    next
      case (Cons p pre')
      with eq have p: "p = Matched ?m"
        and rest: "findAll (drop (length q) (c # cs)) q = pre' @ seg # post"
        by simp_all
      from 2(1) [OF True nonempty rest]
      have "case seg of
              Matched s \<Rightarrow> occursAt q (drop (length q) (c # cs))
                             (length (concat (map segmentText pre'))) \<and> length s = length q
            | Unmatched c' \<Rightarrow> \<not> occursAt q (drop (length q) (c # cs))
                                 (length (concat (map segmentText pre')))" .
      moreover have "length (concat (map segmentText pre)) =
                     length q + length (concat (map segmentText pre'))"
        using Cons p len by simp
      ultimately show ?thesis
        by (simp only: occursAt_drop)
    qed
  next
    case False
    with segments have eq: "Unmatched c # findAll cs q = pre @ seg # post"
      by auto
    show ?thesis
    proof (cases pre)
      case Nil
      with eq have "seg = Unmatched c" by simp
      with False Nil nonempty show ?thesis
        by (simp add: occursAt_0)
    next
      case (Cons p pre')
      with eq have p: "p = Unmatched c" and rest: "findAll cs q = pre' @ seg # post"
        by simp_all
      from 2(2) [OF False nonempty rest]
      have "case seg of
              Matched s \<Rightarrow> occursAt q cs (length (concat (map segmentText pre'))) \<and>
                           length s = length q
            | Unmatched c' \<Rightarrow> \<not> occursAt q cs (length (concat (map segmentText pre')))" .
      moreover have "length (concat (map segmentText pre)) =
                     1 + length (concat (map segmentText pre'))"
        using Cons p by simp
      moreover have "occursAt q (c # cs) (1 + j) \<longleftrightarrow> occursAt q cs j" for j
        using occursAt_drop [of q "c # cs" 1 j] by simp
      ultimately show ?thesis
        by (simp only:)
    qed
  qed
qed

lemma findAll_marks:
  assumes "q \<noteq> []"
  shows "marksScannedOccurrences q text (findAll text q)"
proof -
  let ?segs = "findAll text q"
  have "case ?segs ! i of
          Matched s \<Rightarrow> occursAt q text (segmentOffset ?segs i) \<and> length s = length q
        | Unmatched c \<Rightarrow> \<not> occursAt q text (segmentOffset ?segs i)" if "i < length ?segs" for i
  proof -
    from that have "?segs = take i ?segs @ ?segs ! i # drop (Suc i) ?segs"
      by (rule id_take_nth_drop)
    from findAll_segments [OF assms this] show ?thesis
      by (simp only: segmentOffset_def)
  qed
  then show ?thesis
    by (simp add: marksScannedOccurrences_def findAll_text list_all_iff)
qed

lemma unmarked_when_absent:
  assumes "marksScannedOccurrences q text segments" and "\<not> ciSubstring q text"
  shows "concat (map render segments) = text"
proof -
  have none: "\<not> occursAt q text i" for i
  proof
    assume occ: "occursAt q text i"
    show False
    proof (cases "i \<le> length text")
      case True
      with occ assms(2) show False
        by (auto simp: ciSubstring_def list_ex_iff simp del: upt_Suc)
    next
      case False
      then have "drop i text = drop (length text) text"
        by simp
      with occ have "occursAt q text (length text)"
        by (simp add: occursAt_def)
      with assms(2) show False
        by (auto simp: ciSubstring_def list_ex_iff simp del: upt_Suc)
    qed
  qed
  have "render seg = segmentText seg" if "seg \<in> set segments" for seg
  proof (cases seg)
    case (Unmatched c)
    then show ?thesis by simp
  next
    case (Matched s)
    from that obtain i where i: "i < length segments" "segments ! i = seg"
      by (auto simp: in_set_conv_nth)
    from assms(1) have "\<forall>i<length segments. case segments ! i of
                          Matched s \<Rightarrow> occursAt q text (segmentOffset segments i) \<and>
                                       length s = length q
                        | Unmatched c \<Rightarrow> \<not> occursAt q text (segmentOffset segments i)"
      by (simp add: marksScannedOccurrences_def list_all_iff)
    with i(1) have "case segments ! i of
                          Matched s \<Rightarrow> occursAt q text (segmentOffset segments i) \<and>
                                       length s = length q
                        | Unmatched c \<Rightarrow> \<not> occursAt q text (segmentOffset segments i)"
      by blast
    with i(2) Matched have "occursAt q text (segmentOffset segments i)"
      by simp
    with none show ?thesis
      by blast
  qed
  then have "map render segments = map segmentText segments"
    by simp
  moreover from assms(1) have "concat (map segmentText segments) = text"
    by (simp add: marksScannedOccurrences_def)
  ultimately show ?thesis
    by (simp only:)
qed

lemma calculateRelevance_highlights:
  assumes "regexLiteral query" and "calculateRelevance rx index query = Inr result"
  shows "sr_highlightedTitle result =
           (if contains (toLowerCase (idx_title index)) (toLowerCase query)
            then replaceAllIgnoreCase (idx_title index) query else idx_title index)"
    and "sr_highlightedContent result =
           (if contains (toLowerCase (idx_content index)) (toLowerCase query)
            then replaceAllIgnoreCase (idx_content index) query else idx_content index)"
  using assms
  by (auto simp: calculateRelevance_def highlightText_literal split: if_splits)

lemma highlighted_field:
  assumes "q \<noteq> []"
  shows "(if contains (toLowerCase field) (toLowerCase q)
          then replaceAllIgnoreCase field q else field) =
         concat (map render (findAll field q))"
proof (cases "contains (toLowerCase field) (toLowerCase q)")
  case True
  then show ?thesis
    by (simp add: replaceAllIgnoreCase_def)
next
  case False
  then have "\<not> ciSubstring q field"
    by (simp add: contains_lower_iff)
  with findAll_marks [OF assms] have "concat (map render (findAll field q)) = field"
    by (rule unmarked_when_absent)
  with False show ?thesis
    by simp
qed

text \<open>
  Claim C5, as amended. For a query whose normalized form has no character that is
  special in a regular expression, the highlighted title and content of a scored post are
  the stored texts with the occurrences that a scan from the left meets put between the
  tags: each marked span is an occurrence of the query in its original casing, every
  other character is kept and starts no occurrence, and a field without an occurrence is
  returned as stored. The response copies both fields. The title "Building an API
  Gateway" is highlighted for "api" as "Building an <mark>API</mark> Gateway".
\<close>

theorem highlighting_marks_scanned_occurrences:
  assumes "regexLiteral (normalizeQuery query)"
  shows "(\<exists>result titleSegments contentSegments.
            calculateRelevance rx index (normalizeQuery query) = Inr result \<and>
            marksScannedOccurrences (normalizeQuery query) (idx_title index) titleSegments \<and>
            sr_highlightedTitle result = concat (map render titleSegments) \<and>
            marksScannedOccurrences (normalizeQuery query) (idx_content index) contentSegments \<and>
            sr_highlightedContent result = concat (map render contentSegments) \<and>
            (\<not> ciSubstring (normalizeQuery query) (idx_title index) \<longrightarrow>
               sr_highlightedTitle result = idx_title index) \<and>
            (\<not> ciSubstring (normalizeQuery query) (idx_content index) \<longrightarrow>
               sr_highlightedContent result = idx_content index) \<and>
            (\<forall>this response.
               convertToPostResponse this result = Inr response \<longrightarrow>
               pr_highlightedTitle response = sr_highlightedTitle result \<and>
               pr_highlightedContent response = sr_highlightedContent result)) \<and>
         highlightText rx ''Building an API Gateway'' (normalizeQuery ''api'') =
           Inr ''Building an <mark>API</mark> Gateway''"
proof
  let ?q = "normalizeQuery query"
  from assms have nonempty: "?q \<noteq> []"
    by (simp add: regexLiteral_def)
  from calculateRelevance_returns [of ?q rx index] assms obtain result where
    result: "calculateRelevance rx index ?q = Inr result"
    by blast
  let ?titleSegments = "findAll (idx_title index) ?q"
  let ?contentSegments = "findAll (idx_content index) ?q"
  have title: "sr_highlightedTitle result = concat (map render ?titleSegments)"
    using calculateRelevance_highlights(1) [OF assms result] highlighted_field [OF nonempty]
    by simp
  have content: "sr_highlightedContent result = concat (map render ?contentSegments)"
    using calculateRelevance_highlights(2) [OF assms result] highlighted_field [OF nonempty]
    by simp
  have titleMarks: "marksScannedOccurrences ?q (idx_title index) ?titleSegments"
    using nonempty by (rule findAll_marks)
  have contentMarks: "marksScannedOccurrences ?q (idx_content index) ?contentSegments"
    using nonempty by (rule findAll_marks)
  have titleKept: "\<not> ciSubstring ?q (idx_title index) \<longrightarrow>
                     sr_highlightedTitle result = idx_title index"
    using title unmarked_when_absent [OF titleMarks] by simp
  have contentKept: "\<not> ciSubstring ?q (idx_content index) \<longrightarrow>
                       sr_highlightedContent result = idx_content index"
    using content unmarked_when_absent [OF contentMarks] by simp
  have copied: "\<forall>this response.
               convertToPostResponse this result = Inr response \<longrightarrow>
               pr_highlightedTitle response = sr_highlightedTitle result \<and>
               pr_highlightedContent response = sr_highlightedContent result"
    using convertToPostResponse_copies by blast
  from result titleMarks title contentMarks content titleKept contentKept copied
  show "\<exists>result titleSegments contentSegments.
            calculateRelevance rx index ?q = Inr result \<and>
            marksScannedOccurrences ?q (idx_title index) titleSegments \<and>
            sr_highlightedTitle result = concat (map render titleSegments) \<and>
            marksScannedOccurrences ?q (idx_content index) contentSegments \<and>
            sr_highlightedContent result = concat (map render contentSegments) \<and>
            (\<not> ciSubstring ?q (idx_title index) \<longrightarrow>
               sr_highlightedTitle result = idx_title index) \<and>
            (\<not> ciSubstring ?q (idx_content index) \<longrightarrow>
               sr_highlightedContent result = idx_content index) \<and>
            (\<forall>this response.
               convertToPostResponse this result = Inr response \<longrightarrow>
               pr_highlightedTitle response = sr_highlightedTitle result \<and>
               pr_highlightedContent response = sr_highlightedContent result)"
    by blast
next
  have literal: "regexLiteral (normalizeQuery ''api'')"
    by code_simp
  have "replaceAllIgnoreCase ''Building an API Gateway'' (normalizeQuery ''api'') =
          ''Building an <mark>API</mark> Gateway''"
    by code_simp
  with literal show "highlightText rx ''Building an API Gateway'' (normalizeQuery ''api'') =
           Inr ''Building an <mark>API</mark> Gateway''"
    by (simp add: highlightText_literal)
qed

theorem highlighting_marks_scanned_occurrences_witness:
  "regexLiteral (normalizeQuery '' API '') \<and>
   (\<exists>result titleSegments.
      calculateRelevance rejectingEngine
        \<lparr>idx_id = 7, idx_title = ''Building an API Gateway'', idx_content = ''Routing'',
         idx_excerpt = None, idx_tags = []\<rparr>
        (normalizeQuery '' API '') = Inr result \<and>
      marksScannedOccurrences (normalizeQuery '' API '') ''Building an API Gateway''
        titleSegments \<and>
      sr_highlightedTitle result = concat (map render titleSegments))"
proof -
  have literal: "regexLiteral (normalizeQuery '' API '')"
    by code_simp
  from highlighting_marks_scanned_occurrences
         [OF literal, of rejectingEngine
            "\<lparr>idx_id = 7, idx_title = ''Building an API Gateway'', idx_content = ''Routing'',
              idx_excerpt = None, idx_tags = []\<rparr>"]
  have "\<exists>result titleSegments.
      calculateRelevance rejectingEngine
        \<lparr>idx_id = 7, idx_title = ''Building an API Gateway'', idx_content = ''Routing'',
         idx_excerpt = None, idx_tags = []\<rparr>
        (normalizeQuery '' API '') = Inr result \<and>
      marksScannedOccurrences (normalizeQuery '' API '') ''Building an API Gateway''
        titleSegments \<and>
      sr_highlightedTitle result = concat (map render titleSegments)"
    by (simp only: SearchIndex.simps) blast
  with literal show ?thesis
    by blast
qed

text \<open>
  Claim C5 as stated fails where occurrences overlap: the query "aa" occurs in the title
  "aaa" at offsets 0 and 1, and the highlighted title marks the first occurrence only.
\<close>

theorem overlapping_occurrences_counterexample:
  "occursAt (normalizeQuery ''aa'') ''aaa'' 0 \<and>
   occursAt (normalizeQuery ''aa'') ''aaa'' 1 \<and>
   calculateRelevance rejectingEngine
     \<lparr>idx_id = 3, idx_title = ''aaa'', idx_content = ''b'', idx_excerpt = None,
      idx_tags = []\<rparr>
     (normalizeQuery ''aa'') =
   Inr \<lparr>sr_id = 3, sr_title = ''aaa'', sr_content = ''b'', sr_excerpt = None,
        sr_highlightedTitle = ''<mark>aa</mark>a'', sr_highlightedContent = ''b'',
        sr_score = 3\<rparr>"
  by code_simp

subsection \<open>Pagination\<close>

lemma toInt_id: "- 2147483648 \<le> x \<Longrightarrow> x < 2147483648 \<Longrightarrow> toInt x = x"
  by (simp add: toInt_def)

lemma mapE_slice:
  assumes "mapE f xs = Inr ys"
  shows "mapE f (take a (drop b xs)) = Inr (take a (drop b ys))"
  using assms by (simp add: mapE_eq_Inr list_all2_takeI list_all2_dropI)

lemma mapE_length: "mapE f xs = Inr ys \<Longrightarrow> length ys = length xs"
  by (auto simp: mapE_eq_Inr dest: list_all2_lengthD)

lemma searchPostsBody_in_range:
  assumes nonblank: "trim query \<noteq> []"
    and ps: "performSearch rx this (normalizeQuery query) = Inr results"
    and conv: "mapE (convertToPostResponse this) results = Inr responses"
    and page: "0 \<le> pageNumber pageable"
    and size: "0 \<le> pageSize pageable" "pageSize pageable < 2147483648"
    and offset: "getOffset pageable \<le> int (length results)"
    and small: "length results < 1073741824"
  shows "fst (searchPostsBody rx query pageable this) =
           Inr \<lparr>page_content = take (nat (pageSize pageable))
                                  (drop (nat (getOffset pageable)) responses),
                page_pageable = pageable,
                page_total = int (length results)\<rparr>"
proof -
  let ?start = "getOffset pageable"
  let ?n = "pageSize pageable"
  have nonneg: "0 \<le> ?start"
    using page size(1) by (simp add: getOffset_def)
  have start: "toInt ?start = ?start"
    using nonneg offset small by (intro toInt_id) simp_all
  have sum: "?start + ?n < 2147483648"
  proof (cases "pageNumber pageable = 0")
    case True
    then show ?thesis using size(2) by (simp add: getOffset_def)
  next
    case False
    with page have "1 \<le> pageNumber pageable" by simp
    then have "1 * ?n \<le> pageNumber pageable * ?n"
      using size(1) by (intro mult_right_mono) simp_all
    then have "?n \<le> ?start" by (simp add: getOffset_def)
    with offset small show ?thesis by simp
  qed
  have stop: "toInt (?start + ?n) = ?start + ?n"
    using nonneg size(1) sum by (intro toInt_id) simp_all
  let ?stop = "min (?start + ?n) (int (length results))"
  have sub: "subList results ?start ?stop =
               Inr (take (nat ?n) (drop (nat ?start) results))"
  proof -
    have "take (nat (?stop - ?start)) (drop (nat ?start) results) =
          take (nat ?n) (drop (nat ?start) results)"
    proof (cases "?start + ?n \<le> int (length results)")
      case True
      then show ?thesis by (simp add: min_def)
    next
      case False
      then have "nat (int (length results) - ?start) = length (drop (nat ?start) results)"
        using nonneg offset by simp
      moreover from False have "length (drop (nat ?start) results) \<le> nat ?n"
        using nonneg offset by simp
      ultimately show ?thesis
        using False by (simp add: min_def)
    qed
    moreover have "\<not> ?start < 0" "\<not> ?stop > int (length results)" "\<not> ?start > ?stop"
      using nonneg offset size(1) by simp_all
    ultimately show ?thesis
      by (simp only: subList_def if_False)
  qed
  from mapE_slice [OF conv] have slice:
    "mapE (convertToPostResponse this) (take (nat ?n) (drop (nat ?start) results)) =
       Inr (take (nat ?n) (drop (nat ?start) responses))" .
  show ?thesis
    using nonblank by (simp add: searchPostsBody_def Let_def ps start stop sub slice)
qed

lemma searchPostsBody_past_results:
  assumes nonblank: "trim query \<noteq> []"
    and ps: "performSearch rx this (normalizeQuery query) = Inr results"
    and past: "int (length results) < getOffset pageable"
    and range: "getOffset pageable < 2147483648"
  shows "fst (searchPostsBody rx query pageable this) =
           Inl (IllegalArgumentException FromIndexAboveToIndex)"
proof -
  let ?start = "getOffset pageable"
  let ?stop = "min (toInt (?start + pageSize pageable)) (int (length results))"
  have start: "toInt ?start = ?start"
    using past range by (intro toInt_id) simp_all
  have "?stop \<le> int (length results)"
    by simp
  with past have "\<not> ?start < 0" "\<not> ?stop > int (length results)" "?start > ?stop"
    by simp_all
  then have "subList results ?start ?stop = Inl (IllegalArgumentException FromIndexAboveToIndex)"
    by (simp only: subList_def if_False if_True)
  with nonblank show ?thesis
    by (simp add: searchPostsBody_def Let_def ps start)
qed

lemma concat_pages: "concat (map (\<lambda>k. take n (drop (k * n) xs)) [0..<m]) = take (m * n) xs"
proof (induction m)
  case 0
  then show ?case by simp
next
  case (Suc m)
  have "take (m * n) xs @ take n (drop (m * n) xs) = take (m * n + n) xs"
    by (simp add: take_add)
  with Suc show ?case
    by (simp add: add.commute)
qed

lemma pageCount_covers: "0 < n \<Longrightarrow> len \<le> pageCount len n * n"
proof -
  assume n: "0 < n"
  from dividend_less_div_times [OF n, of "len + n - 1"]
  have "len + n - 1 < n + pageCount len n * n"
    by (simp add: pageCount_def)
  with n show ?thesis by simp
qed

lemma page_starts_inside:
  assumes "0 < n" and "k < pageCount len n"
  shows "k * n < len"
proof -
  from assms(2) have "Suc k \<le> pageCount len n" by simp
  then have "Suc k * n \<le> pageCount len n * n"
    by (rule mult_le_mono1)
  also have "\<dots> \<le> len + n - 1"
    by (simp add: pageCount_def)
  finally show ?thesis
    using assms(1) by simp
qed

lemma convert_returns:
  assumes "repositoryInv this" and "performSearch rx this query = Inr results"
  shows "\<exists>responses. mapE (convertToPostResponse this) results = Inr responses"
proof (rule mapE_returns)
  fix result
  assume "result \<in> set results"
  from performSearch_ids_indexed [OF assms(2) this] obtain k index where
    ki: "(k, index) \<in> set (searchIndex this)" "idx_id index = sr_id result"
    by blast
  from assms(1) ki(1) have "case postRepository this (idx_id index) of
                               None \<Rightarrow> False
                             | Some p \<Rightarrow> post_id p = idx_id index"
    by (auto simp: repositoryInv_def list_all_iff)
  with ki(2) obtain post where "postRepository this (sr_id result) = Some post"
    by (auto split: option.splits)
  then show "\<exists>response. convertToPostResponse this result = Inr response"
    by (simp add: convertToPostResponse_def)
qed

lemma results_count:
  assumes "performSearch rx this query = Inr results"
  shows "length results =
           length (filter (\<lambda>index. case calculateRelevance rx index query of
                                      Inl e \<Rightarrow> False
                                    | Inr result \<Rightarrow> 0 < sr_score result)
                     (map snd (searchIndex this)))"
proof -
  from assms obtain scored where
    scored: "mapE (\<lambda>index. calculateRelevance rx index query) (map snd (searchIndex this)) = Inr scored"
    and results: "results = sort_key (\<lambda>result. - sr_score result)
                             (filter (\<lambda>result. sr_score result > 0) scored)"
    by (auto simp: performSearch_eq_Inr)
  from scored have "list_all2 (\<lambda>index result. calculateRelevance rx index query = Inr result)
                      (map snd (searchIndex this)) scored"
    by (simp add: mapE_eq_Inr)
  then have "length (filter (\<lambda>result. sr_score result > 0) scored) =
             length (filter (\<lambda>index. case calculateRelevance rx index query of
                                      Inl e \<Rightarrow> False
                                    | Inr result \<Rightarrow> 0 < sr_score result)
                     (map snd (searchIndex this)))"
    by (induction rule: list_all2_induct) simp_all
  with results show ?thesis
    by simp
qed

lemma results_length_le:
  assumes "performSearch rx this query = Inr results"
  shows "length results \<le> length (searchIndex this)"
proof -
  have "length (filter P (map snd (searchIndex this))) \<le> length (searchIndex this)" for P
    using length_filter_le [of P "map snd (searchIndex this)"] by simp
  with results_count [OF assms] show ?thesis
    by simp
qed

text \<open>
  Claim C3 fails on the code. The query "spring" has two results in the example index;
  the request for page 1 of size 10 starts at offset 10, the end is clamped to 2, and
  \<open>subList(10, 2)\<close> throws \<open>IllegalArgumentException\<close> where the claim promises an empty
  page; the exception reaches the caller, and nothing is cached. (For an offset up to
  the number of results \<open>searchPostsBody_in_range\<close> gives the clamped slice; for every
  larger offset in the range of \<open>int\<close>, \<open>searchPostsBody_past_results\<close> gives this
  exception.)
\<close>

theorem page_past_the_results_throws:
  "fst (searchPostsBody rejectingEngine ''spring'' \<lparr>pageNumber = 1, pageSize = 10\<rparr> exampleService) =
     Inl (IllegalArgumentException FromIndexAboveToIndex) \<and>
   fst (searchPosts rejectingEngine ''spring'' \<lparr>pageNumber = 1, pageSize = 10\<rparr> exampleService) =
     Inl (IllegalArgumentException FromIndexAboveToIndex)"
  by code_simp

text \<open>
  The cast of the offset to \<open>int\<close> wraps: page 65536 of size 65536 starts at offset 0
  and returns the first results.
\<close>

lemma page_offset_wraps:
  "map_sum id (\<lambda>page. map pr_id (page_content page))
     (fst (searchPostsBody rejectingEngine ''spring'' \<lparr>pageNumber = 65536, pageSize = 65536\<rparr>
             exampleService)) = Inr [1, 2]"
  by code_simp

text \<open>
  The pages that the body computes for one state of the index agree: for a page size
  from 1 up, the pages 0 to \<open>pageCount total size - 1\<close> all return, each with the same
  total, the number of indexed posts with score greater than 0, and their contents,
  concatenated, are the content of the single page 0 of size total. This holds whenever
  highlighting raises no exception for the query, the repository holds the indexed
  posts, and the index has fewer than \<open>2^30\<close> entries, so that the \<open>int\<close> computation
  of the end of a page does not overflow.
\<close>

lemma body_pages_agree:
  assumes nonblank: "trim query \<noteq> []"
    and returns: "highlightReturns rx (normalizeQuery query) this"
    and repository: "repositoryInv this"
    and size: "1 \<le> n" "n < 2147483648"
    and small: "length (searchIndex this) < 1073741824"
  shows "\<exists>results responses.
           performSearch rx this (normalizeQuery query) = Inr results \<and>
           mapE (convertToPostResponse this) results = Inr responses \<and>
           length results =
             length (filter (\<lambda>index. case calculateRelevance rx index (normalizeQuery query) of
                                        Inl e \<Rightarrow> False
                                      | Inr result \<Rightarrow> 0 < sr_score result)
                       (map snd (searchIndex this))) \<and>
           (\<forall>k < pageCount (length results) (nat n).
              fst (searchPostsBody rx query \<lparr>pageNumber = int k, pageSize = n\<rparr> this) =
                Inr \<lparr>page_content = take (nat n) (drop (k * nat n) responses),
                     page_pageable = \<lparr>pageNumber = int k, pageSize = n\<rparr>,
                     page_total = int (length results)\<rparr>) \<and>
           concat (map (\<lambda>k. case fst (searchPostsBody rx query \<lparr>pageNumber = int k, pageSize = n\<rparr> this) of
                                Inl e \<Rightarrow> []
                              | Inr page \<Rightarrow> page_content page)
                       [0..<pageCount (length results) (nat n)]) = responses \<and>
           fst (searchPostsBody rx query \<lparr>pageNumber = 0, pageSize = int (length results)\<rparr> this) =
             Inr \<lparr>page_content = responses,
                  page_pageable = \<lparr>pageNumber = 0, pageSize = int (length results)\<rparr>,
                  page_total = int (length results)\<rparr>"
proof -
  from performSearch_returns [OF returns] obtain results where
    ps: "performSearch rx this (normalizeQuery query) = Inr results"
    by blast
  from convert_returns [OF repository ps] obtain responses where
    conv: "mapE (convertToPostResponse this) results = Inr responses"
    by blast
  have len: "length responses = length results"
    using conv by (rule mapE_length)
  have few: "length results < 1073741824"
    using results_length_le [OF ps] small by simp
  let ?m = "pageCount (length results) (nat n)"
  have npos: "0 < nat n"
    using size(1) by simp
  have pages: "fst (searchPostsBody rx query \<lparr>pageNumber = int k, pageSize = n\<rparr> this) =
                Inr \<lparr>page_content = take (nat n) (drop (k * nat n) responses),
                     page_pageable = \<lparr>pageNumber = int k, pageSize = n\<rparr>,
                     page_total = int (length results)\<rparr>" if k: "k < ?m" for k
  proof -
    let ?p = "\<lparr>pageNumber = int k, pageSize = n\<rparr>"
    from page_starts_inside [OF npos k] have "k * nat n < length results" .
    then have "k * nat n \<le> length results"
      by simp
    then have "int (k * nat n) \<le> int (length results)"
      by (simp only: of_nat_le_iff)
    moreover have off: "getOffset ?p = int (k * nat n)"
      using size(1) by (simp add: getOffset_def)
    ultimately have "getOffset ?p \<le> int (length results)"
      by simp
    from searchPostsBody_in_range [OF nonblank ps conv _ _ _ this few, of] size
    have "fst (searchPostsBody rx query ?p this) =
           Inr \<lparr>page_content = take (nat (pageSize ?p)) (drop (nat (getOffset ?p)) responses),
                page_pageable = ?p, page_total = int (length results)\<rparr>"
      by simp
    moreover have "nat (getOffset ?p) = k * nat n"
      by (simp add: getOffset_def nat_mult_distrib)
    moreover have "pageSize ?p = n"
      by simp
    ultimately show ?thesis
      by (simp only:)
  qed
  have "concat (map (\<lambda>k. case fst (searchPostsBody rx query \<lparr>pageNumber = int k, pageSize = n\<rparr> this) of
                                Inl e \<Rightarrow> []
                              | Inr page \<Rightarrow> page_content page) [0..<?m]) =
        concat (map (\<lambda>k. take (nat n) (drop (k * nat n) responses)) [0..<?m])"
    by (rule arg_cong [where f = concat], rule map_cong) (simp_all add: pages)
  also have "\<dots> = take (?m * nat n) responses"
    by (rule concat_pages)
  also have "\<dots> = responses"
    using pageCount_covers [OF npos, of "length results"] len by simp
  finally have all: "concat (map (\<lambda>k. case fst (searchPostsBody rx query \<lparr>pageNumber = int k, pageSize = n\<rparr> this) of
                                Inl e \<Rightarrow> []
                              | Inr page \<Rightarrow> page_content page) [0..<?m]) = responses" .
  have single: "fst (searchPostsBody rx query \<lparr>pageNumber = 0, pageSize = int (length results)\<rparr> this) =
             Inr \<lparr>page_content = responses,
                  page_pageable = \<lparr>pageNumber = 0, pageSize = int (length results)\<rparr>,
                  page_total = int (length results)\<rparr>"
  proof -
    let ?p = "\<lparr>pageNumber = 0, pageSize = int (length results)\<rparr>"
    have "getOffset ?p \<le> int (length results)"
      by (simp add: getOffset_def)
    from searchPostsBody_in_range [OF nonblank ps conv _ _ _ this few] few
    have "fst (searchPostsBody rx query ?p this) =
           Inr \<lparr>page_content = take (nat (pageSize ?p)) (drop (nat (getOffset ?p)) responses),
                page_pageable = ?p, page_total = int (length results)\<rparr>"
      by simp
    then show ?thesis
      by (simp add: getOffset_def len)
  qed
  from ps conv results_count [OF ps] pages all single show ?thesis
    by blast
qed

text \<open>
  Claim C6 fails on the code. The pages of one search are cached one by one and never
  evicted, so pages computed before and after a change of the index are served side by
  side. In the example, post 2 is indexed and page 0 of size 1 of the search for
  "spring" is computed and stored: post 2, total 1. Post 1 is indexed then, which ranks
  first; from here on the index is fixed. Page 0 of size 1 is answered from the cache
  (post 2, total 1), page 1 is computed (post 2, total 2), and the single page of size 2
  holds the posts 1 and 2: the pages disagree on the total, their concatenation shows
  post 2 twice, and post 1 is on none of them.
\<close>

theorem pages_of_one_index_disagree:
  "map fst (searchIndex serviceAfterIndexing) = [2, 1] \<and>
   idsAndTotal
     (fst (searchPosts rejectingEngine ''spring'' \<lparr>pageNumber = 0, pageSize = 1\<rparr>
             serviceAfterIndexing)) = Inr ([2], 1) \<and>
   idsAndTotal
     (fst (searchPosts rejectingEngine ''spring'' \<lparr>pageNumber = 1, pageSize = 1\<rparr>
             (snd (searchPosts rejectingEngine ''spring'' \<lparr>pageNumber = 0, pageSize = 1\<rparr>
                     serviceAfterIndexing)))) = Inr ([2], 2) \<and>
   idsAndTotal
     (fst (searchPosts rejectingEngine ''spring'' \<lparr>pageNumber = 0, pageSize = 2\<rparr>
             (snd (searchPosts rejectingEngine ''spring'' \<lparr>pageNumber = 1, pageSize = 1\<rparr>
                     (snd (searchPosts rejectingEngine ''spring'' \<lparr>pageNumber = 0, pageSize = 1\<rparr>
                             serviceAfterIndexing)))))) = Inr ([1, 2], 2)"
  by code_simp

end
